theory Spec2Isabelle
  imports Main "HOL-Library.Char_ord" "HOL-Library.List_Lexorder"
begin

section \<open>Go strings and the library functions the controller calls\<close>

text \<open>
  A Go \<open>string\<close> and a Go \<open>[]byte\<close> are byte sequences: both are \<open>char list\<close> here
  (an Isabelle \<open>char\<close> is one byte). Comparing two Go strings with \<open><\<close> compares them
  byte by byte, which is the lexicographic order of \<open>List_Lexorder\<close> over the byte
  order of \<open>Char_ord\<close>.
\<close>

type_synonym bytes = string

abbreviation CR :: char where "CR \<equiv> CHR 0x0D"
abbreviation LF :: char where "LF \<equiv> CHR 0x0A"
abbreviation DQUOTE :: char where "DQUOTE \<equiv> CHR 0x22"
abbreviation BACKSLASH :: char where "BACKSLASH \<equiv> CHR 0x5C"

text \<open>
  Every error value the controller can return. \<open>ErrorNew\<close> is \<open>errors.New\<close> (and a
  \<open>fmt.Errorf\<close> without an error argument) with its message, \<open>Errorf\<close> a \<open>fmt.Errorf\<close>
  that formats another error after the given prefix. \<open>PanicNilDereference\<close> is not a
  returned error but the run-time panic of a method call through a nil \<open>*textproto.Conn\<close>;
  it unwinds through every caller.
\<close>

datatype error =
    ErrEOF
  | ErrUnexpectedEOF
  | ProtocolError string
  | ErrSyntax
  | ErrRange
  | InvalidByteError char
  | ErrLength
  | ErrClosed
  | ErrWrite
  | ErrNotExist
  | errCodeNotMatch
  | errTCNotStarted
  | errTCStopped
  | ErrorNew string
  | Errorf string error
  | PanicNilDereference

subsection \<open>package strings\<close>

text \<open>\<open>strings.Split(s, sep)\<close> for a one-byte separator: never empty, \<open>[s]\<close> without a separator.\<close>

fun Split :: "string \<Rightarrow> char \<Rightarrow> string list" where
  "Split [] sep = [[]]"
| "Split (x # xs) sep =
     (if x = sep then [] # Split xs sep
      else (case Split xs sep of [] \<Rightarrow> [[x]] | p # ps \<Rightarrow> (x # p) # ps))"

text \<open>\<open>strings.Contains(s, substr)\<close>: \<open>substr\<close> occurs in \<open>s\<close> at some offset.\<close>

fun HasPrefix :: "string \<Rightarrow> string \<Rightarrow> bool" where
  "HasPrefix s [] = True"
| "HasPrefix [] (p # ps) = False"
| "HasPrefix (x # xs) (p # ps) = (x = p \<and> HasPrefix xs ps)"

fun Contains :: "string \<Rightarrow> string \<Rightarrow> bool" where
  "Contains [] substr = (substr = [])"
| "Contains (x # xs) substr = (HasPrefix (x # xs) substr \<or> Contains xs substr)"

text \<open>\<open>strings.Trim(s, cutset)\<close> for a one-byte cutset.\<close>

definition Trim :: "string \<Rightarrow> char \<Rightarrow> string" where
  "Trim s c = rev (dropWhile (\<lambda>x. x = c) (rev (dropWhile (\<lambda>x. x = c) s)))"

text \<open>\<open>strings.Join(elems, sep)\<close>.\<close>

fun Join :: "string list \<Rightarrow> string \<Rightarrow> string" where
  "Join [] sep = []"
| "Join [x] sep = x"
| "Join (x # y # zs) sep = x @ sep @ Join (y # zs) sep"

subsection \<open>package strconv\<close>

definition isDigit :: "char \<Rightarrow> bool" where
  "isDigit c = (CHR ''0'' \<le> c \<and> c \<le> CHR ''9'')"

definition digitVal :: "char \<Rightarrow> nat" where
  "digitVal c = of_char c - 48"

text \<open>
  \<open>strconv.ParseUint(s, 10, 64)\<close> on the digits after the sign: a byte that is no digit
  is a syntax error, a value that leaves 64 bits a range error, whichever comes first
  from the left.
\<close>

fun parseUint :: "string \<Rightarrow> nat \<Rightarrow> error + nat" where
  "parseUint [] n = Inr n"
| "parseUint (c # cs) n =
     (if \<not> isDigit c then Inl ErrSyntax
      else if n * 10 + digitVal c \<ge> 2 ^ 64 then Inl ErrRange
      else parseUint cs (n * 10 + digitVal c))"

text \<open>
  \<open>strconv.Atoi\<close> with a 64-bit \<open>int\<close>: an optional sign, then at least one decimal
  digit; the value must fit. It returns a value beside the error: 0 with a syntax error,
  the nearest bound with a range error.
\<close>

definition Atoi :: "string \<Rightarrow> int \<times> error option" where
  "Atoi s =
     (case s of
        [] \<Rightarrow> (0, Some ErrSyntax)
      | c # cs \<Rightarrow>
          (let neg = (c = CHR ''-'');
               ds = (if c = CHR ''+'' \<or> c = CHR ''-'' then cs else s)
           in if ds = [] then (0, Some ErrSyntax)
              else (case parseUint ds 0 of
                      Inl e \<Rightarrow>
                        (if e = ErrRange
                         then (if neg then - (2 ^ 63) else 2 ^ 63 - 1, Some ErrRange)
                         else (0, Some e))
                    | Inr un \<Rightarrow>
                        (if \<not> neg \<and> un \<ge> 2 ^ 63 then (2 ^ 63 - 1, Some ErrRange)
                         else if neg \<and> un > 2 ^ 63 then (- (2 ^ 63), Some ErrRange)
                         else (if neg then - int un else int un, None)))))"

section \<open>tor/controller.go\<close>

subsection \<open>Constants\<close>

definition success :: int where "success = 250"
definition nonceLen :: nat where "nonceLen = 32"
definition cookieLen :: nat where "cookieLen = 32"
definition sha256_Size :: nat where "sha256_Size = 32"
definition MinTorVersion :: string where "MinTorVersion = ''0.3.3.6''"
definition authSafeCookie :: string where "authSafeCookie = ''SAFECOOKIE''"
definition authHashedPassword :: string where "authHashedPassword = ''HASHEDPASSWORD''"
definition authNull :: string where "authNull = ''NULL''"

subsection \<open>supportsV3\<close>

text \<open>The loop over the parts: the first part \<open>Atoi\<close> refuses decides the error.\<close>

fun firstAtoiError :: "string list \<Rightarrow> error option" where
  "firstAtoiError [] = None"
| "firstAtoiError (part # parts) =
     (case snd (Atoi part) of Some err \<Rightarrow> Some err | None \<Rightarrow> firstAtoiError parts)"

definition supportsV3 :: "string \<Rightarrow> error option" where
  "supportsV3 version =
     (let parts = Split version (CHR ''.'')
      in if length parts \<noteq> 4
         then Some (ErrorNew ''version string is not of the format major.minor.revision.build'')
         else
           (let build = Split (parts ! (length parts - 1)) (CHR ''-'');
                parts = parts[length parts - 1 := build ! 0]
            in (case firstAtoiError parts of
                  Some err \<Rightarrow> Some err
                | None \<Rightarrow>
                    (if version < MinTorVersion
                     then Some (ErrorNew (''version '' @ version @
                            '' below minimum version supported '' @ MinTorVersion))
                     else None))))"

subsection \<open>protocolInfo\<close>

type_synonym protocolInfo = "string \<rightharpoonup> string"

definition supportsAuthMethod :: "protocolInfo \<Rightarrow> string \<Rightarrow> bool" where
  "supportsAuthMethod i method =
     (case i ''METHODS'' of None \<Rightarrow> False | Some methods \<Rightarrow> Contains methods method)"

section \<open>The control connection\<close>

subsection \<open>The buffered reader of net/textproto\<close>

text \<open>
  \<open>c.conn\<close> is a \<open>textproto.Conn\<close>: a \<open>textproto.Reader\<close> over a \<open>bufio.Reader\<close>
  (field \<open>R\<close>) over the socket. The model keeps the two things \<open>readResponse\<close> can tell
  apart: the bytes already in the buffer (\<open>R.Buffered()\<close> counts them, \<open>R.Discard\<close>
  drops them) and what the socket will still deliver, as the list of byte chunks that
  its successive \<open>Read\<close> calls return; with no chunk left the socket is at end of file.
  The buffer's capacity is not modelled: a chunk is by definition what one fill of the
  buffer obtains.
\<close>

record Reader =
  buffered :: bytes
  incoming :: "bytes list"

text \<open>
  \<open>bufio.Reader.ReadLine\<close> once the buffer holds a line feed: the line is everything
  before the first line feed, without the line feed and without one carriage return
  directly before it.
\<close>

definition takeLine :: "bytes \<Rightarrow> bytes list \<Rightarrow> (error + string) \<times> Reader" where
  "takeLine buf net =
     (let l = takeWhile (\<lambda>x. x \<noteq> LF) buf;
          rest = drop (Suc (length l)) buf
      in (Inr (if l \<noteq> [] \<and> last l = CR then butlast l else l),
          \<lparr>buffered = rest, incoming = net\<rparr>))"

text \<open>
  The fill loop: while the buffer has no line feed the next chunk is read into it. At
  end of file the rest of the buffer is returned as a last line (carriage return
  included), and \<open>io.EOF\<close> when the buffer is empty.
\<close>

fun readLineSlice :: "bytes \<Rightarrow> bytes list \<Rightarrow> (error + string) \<times> Reader" where
  "readLineSlice buf [] =
     (if LF \<in> set buf then takeLine buf []
      else if buf = [] then (Inl ErrEOF, \<lparr>buffered = [], incoming = []\<rparr>)
      else (Inr buf, \<lparr>buffered = [], incoming = []\<rparr>))"
| "readLineSlice buf (chunk # net) =
     (if LF \<in> set buf then takeLine buf (chunk # net)
      else readLineSlice (buf @ chunk) net)"

definition ReadLine :: "Reader \<Rightarrow> (error + string) \<times> Reader" where
  "ReadLine r = readLineSlice (buffered r) (incoming r)"

text \<open>The bytes a reader can still produce; the measure of the reading loops.\<close>

definition remaining :: "Reader \<Rightarrow> nat" where
  "remaining r = length (buffered r) + sum_list (map length (incoming r))"

lemma takeLine_remaining:
  "LF \<in> set buf \<Longrightarrow> takeLine buf net = (res, r') \<Longrightarrow>
   remaining r' < length buf + sum_list (map length net)"
  using length_pos_if_in_set[of LF buf]
  by (auto simp: takeLine_def remaining_def Let_def)

lemma readLineSlice_remaining_le:
  "readLineSlice buf net = (res, r') \<Longrightarrow>
   remaining r' \<le> length buf + sum_list (map length net)"
proof (induction buf net arbitrary: res r' rule: readLineSlice.induct)
  case (1 buf)
  then show ?case
    using takeLine_remaining[of buf "[]" res r']
    by (auto simp: remaining_def split: if_splits)
next
  case (2 buf chunk net)
  then show ?case
    using takeLine_remaining[of buf "chunk # net" res r']
    by (auto split: if_splits)
qed

lemma readLineSlice_remaining_less:
  "readLineSlice buf net = (Inr line, r') \<Longrightarrow>
   remaining r' < length buf + sum_list (map length net)"
proof (induction buf net arbitrary: line r' rule: readLineSlice.induct)
  case (1 buf)
  then show ?case
    using takeLine_remaining[of buf "[]" "Inr line" r']
    by (auto simp: remaining_def split: if_splits)
next
  case (2 buf chunk net)
  then show ?case
    using takeLine_remaining[of buf "chunk # net" "Inr line" r']
    by (auto split: if_splits)
qed

lemma ReadLine_remaining_le: "ReadLine r = (res, r') \<Longrightarrow> remaining r' \<le> remaining r"
  unfolding ReadLine_def remaining_def[of r] by (rule readLineSlice_remaining_le)

lemma ReadLine_remaining_less: "ReadLine r = (Inr line, r') \<Longrightarrow> remaining r' < remaining r"
  unfolding ReadLine_def remaining_def[of r] by (rule readLineSlice_remaining_less)

text \<open>
  \<open>textproto.Reader.ReadDotLines\<close>: lines up to a line that is a single dot; one
  leading dot is cut from every other line; \<open>io.EOF\<close> before the closing dot becomes
  \<open>io.ErrUnexpectedEOF\<close>. The lines read so far are returned beside the error.
\<close>

function ReadDotLines_loop :: "string list \<Rightarrow> Reader \<Rightarrow> (string list \<times> error option) \<times> Reader" where
  "ReadDotLines_loop v r =
     (case ReadLine r of
        (Inl err, r1) \<Rightarrow> ((v, Some (if err = ErrEOF then ErrUnexpectedEOF else err)), r1)
      | (Inr line, r1) \<Rightarrow>
          (if line \<noteq> [] \<and> hd line = CHR ''.''
           then (if length line = 1 then ((v, None), r1)
                 else ReadDotLines_loop (v @ [tl line]) r1)
           else ReadDotLines_loop (v @ [line]) r1))"
  by pat_completeness auto
termination
  by (relation "measure (\<lambda>(v, r). remaining r)")
    (auto dest: ReadLine_remaining_less[OF sym])

declare ReadDotLines_loop.simps [simp del]

definition ReadDotLines :: "Reader \<Rightarrow> (string list \<times> error option) \<times> Reader" where
  "ReadDotLines r = ReadDotLines_loop [] r"

lemma ReadDotLines_loop_remaining:
  "ReadDotLines_loop v r = (res, r') \<Longrightarrow> remaining r' \<le> remaining r"
proof (induction v r arbitrary: res r' rule: ReadDotLines_loop.induct)
  case (1 v r)
  obtain a r1 where rl: "ReadLine r = (a, r1)" by (cases "ReadLine r")
  have le: "remaining r1 \<le> remaining r" using rl by (rule ReadLine_remaining_le)
  show ?case
  proof (cases a)
    case (Inl err)
    with rl "1.prems" have "r' = r1"
      by (subst (asm) ReadDotLines_loop.simps) simp
    with le show ?thesis by simp
  next
    case (Inr line)
    note rl' = rl[unfolded Inr]
    consider (stop) "line \<noteq> [] \<and> hd line = CHR ''.''" "length line = 1"
      | (cut) "line \<noteq> [] \<and> hd line = CHR ''.''" "length line \<noteq> 1"
      | (keep) "\<not> (line \<noteq> [] \<and> hd line = CHR ''.'')" by blast
    then show ?thesis
    proof cases
      case stop
      with rl' "1.prems" have "r' = r1"
        by (subst (asm) ReadDotLines_loop.simps) simp
      with le show ?thesis by simp
    next
      case cut
      with rl' "1.prems" have "ReadDotLines_loop (v @ [tl line]) r1 = (res, r')"
        by (subst (asm) ReadDotLines_loop.simps) simp
      from "1.IH"(1)[OF rl'[symmetric] refl cut(1) cut(2) this] le show ?thesis by simp
    next
      case keep
      with rl' "1.prems" have "ReadDotLines_loop (v @ [line]) r1 = (res, r')"
        by (subst (asm) ReadDotLines_loop.simps) simp
      from "1.IH"(2)[OF rl'[symmetric] refl keep this] le show ?thesis by simp
    qed
  qed
qed

lemma ReadDotLines_remaining: "ReadDotLines r = (res, r') \<Longrightarrow> remaining r' \<le> remaining r"
  unfolding ReadDotLines_def by (rule ReadDotLines_loop_remaining)

subsection \<open>readResponse\<close>

text \<open>
  The loop of \<open>readResponse\<close>, with the reply accumulated so far; it runs on the reader
  of \<open>c.conn\<close>. \<open>hasMoreLines\<close> is the recursive call: an end line returns.
\<close>

function readResponse_loop :: "int \<Rightarrow> string \<Rightarrow> Reader \<Rightarrow> (int \<times> string \<times> error option) \<times> Reader" where
  "readResponse_loop expected reply r =
     (case ReadLine r of
        (Inl err, r1) \<Rightarrow> ((0, reply, Some err), r1)
      | (Inr line, r1) \<Rightarrow>
          (if length line < 4
           then ((0, reply, Some (ProtocolError (''short line: '' @ line))), r1)
           else
             (case Atoi (take 3 line) of
                (code, Some err) \<Rightarrow> ((code, reply, Some err), r1)
              | (code, None) \<Rightarrow>
                  (if line ! 3 = CHR '' '' then
                     (let reply = reply @ drop 4 line
                      in if code \<noteq> expected then ((code, reply, Some errCodeNotMatch), r1)
                         else ((code, reply, None), r1))
                   else if line ! 3 = CHR ''-'' then
                     (let reply = reply @ drop 4 line
                      in if code \<noteq> expected then ((code, reply, Some errCodeNotMatch), r1)
                         else readResponse_loop expected (reply @ [LF]) r1)
                   else if line ! 3 = CHR ''+'' then
                     (let reply = reply @ drop 4 line
                      in (case ReadDotLines r1 of
                            ((resp, Some err), r2) \<Rightarrow> ((code, reply, Some err), r2)
                          | ((resp, None), r2) \<Rightarrow>
                              (let reply = reply @ Join resp '',''
                               in if code \<noteq> expected
                                  then ((code, reply, Some errCodeNotMatch), r2)
                                  else readResponse_loop expected (reply @ [LF]) r2)))
                   else ((code, reply, Some (ProtocolError (''invalid line: '' @ line))), r1)))))"
  by pat_completeness auto
termination
  by (relation "measure (\<lambda>(expected, reply, r). remaining r)")
    (auto dest!: ReadLine_remaining_less[OF sym] ReadDotLines_remaining[OF sym])

declare readResponse_loop.simps [simp del]

text \<open>
  \<open>readResponse\<close>: the loop, then the deferred \<open>c.conn.R.Discard(c.conn.R.Buffered())\<close>,
  which runs on every return and empties the buffer.
\<close>

definition readResponse :: "int \<Rightarrow> Reader \<Rightarrow> (int \<times> string \<times> error option) \<times> Reader" where
  "readResponse expected r =
     (case readResponse_loop expected [] r of
        (res, r1) \<Rightarrow> (res, r1\<lparr>buffered := []\<rparr>))"

subsection \<open>Reply fields: replyFieldRegexp, unescapeValue, parseTorReply\<close>

text \<open>
  \<open>replyFieldRegexp\<close> is \<^verbatim>\<open>[^" \r\n]+=(?:"(?:[^"\\]|\\[\0-\x7F])*"|[^" \r\n]*)\<close>, used with
  \<open>FindAllString(reply, -1)\<close>: the successive leftmost matches, each the one a backtracking
  matcher finds first. The scanner below computes them on bytes. Every class of the
  expression is cut at ASCII bytes only, so matching bytes and matching runes, where a
  byte that is not part of well-formed UTF-8 counts as the rune \<open>U+FFFD\<close>, give the same
  matches.

  A match at the start of \<open>s\<close> needs a key of at least one byte of the class \<open>[^" \r\n]\<close>
  followed by \<open>=\<close>. The key is greedy: with \<open>run\<close> the longest prefix of \<open>s\<close> in the class, it
  ends before the last \<open>=\<close> of \<open>run\<close>, which must not be its first byte. The value is a
  quoted string when one starts right there, which can only be after the whole of
  \<open>run\<close>; otherwise it is the rest of \<open>run\<close>.
\<close>

definition keyChar :: "char \<Rightarrow> bool" where
  "keyChar c = (c \<noteq> DQUOTE \<and> c \<noteq> CHR '' '' \<and> c \<noteq> CR \<and> c \<noteq> LF)"

text \<open>
  The length of what \<^verbatim>\<open>(?:[^"\\]|\\[\0-\x7F])*"\<close> matches at the start of a string: up
  to the first quote that no backslash escapes; a backslash escapes one ASCII byte.
\<close>

fun quotedEnd :: "string \<Rightarrow> nat option" where
  "quotedEnd [] = None"
| "quotedEnd [c] = (if c = DQUOTE then Some 1 else None)"
| "quotedEnd (c # d # ds) =
     (if c = DQUOTE then Some 1
      else if c = BACKSLASH
      then (if (of_char d :: nat) < 128 then map_option (\<lambda>n. n + 2) (quotedEnd ds) else None)
      else map_option Suc (quotedEnd (d # ds)))"

definition matchLen :: "string \<Rightarrow> nat" where
  "matchLen s =
     (let run = takeWhile keyChar s; rest = drop (length run) s
      in if run \<noteq> [] \<and> last run = CHR ''='' \<and> rest \<noteq> [] \<and> hd rest = DQUOTE
         then (case quotedEnd (tl rest) of
                 Some n \<Rightarrow> length run + 1 + n
               | None \<Rightarrow> length run)
         else length run)"

definition matchesHere :: "string \<Rightarrow> bool" where
  "matchesHere s = (CHR ''='' \<in> set (drop 1 (takeWhile keyChar s)))"

lemma matchLen_pos: "matchesHere s \<Longrightarrow> 0 < matchLen s"
proof -
  assume "matchesHere s"
  then have "takeWhile keyChar s \<noteq> []" by (auto simp: matchesHere_def)
  then show ?thesis by (auto simp: matchLen_def Let_def split: option.splits)
qed

function FindAllString :: "string \<Rightarrow> string list" where
  "FindAllString [] = []"
| "FindAllString (c # cs) =
     (if matchesHere (c # cs)
      then take (matchLen (c # cs)) (c # cs) # FindAllString (drop (matchLen (c # cs)) (c # cs))
      else FindAllString cs)"
  by pat_completeness auto
termination
  by (relation "measure length") (auto dest: matchLen_pos)

text \<open>
  \<open>unescapeValue\<close> ranges over the runes of the value, \<open>for _, char := range value\<close>, and
  appends \<open>string(char)\<close> for each rune it keeps. A rune is a code point, here a natural
  number. The range statement takes a byte below \<open>0x80\<close> as a rune of its own and
  decodes every other position with \<open>decoderune\<close> of the runtime: a well-formed encoding
  of two, three or four bytes gives its code point and its width, anything else gives
  \<open>U+FFFD\<close> and the width 1. \<open>string(char)\<close> is \<open>encoderune\<close>. So a byte that is not part
  of well-formed UTF-8 comes out as the three bytes \<open>EF BF BD\<close>.
\<close>

definition runeError :: nat where
  "runeError = 0xFFFD"

definition isContinuation :: "char \<Rightarrow> bool" where
  "isContinuation b = (0x80 \<le> (of_char b :: nat) \<and> (of_char b :: nat) \<le> 0xBF)"

definition decoderune :: "string \<Rightarrow> nat \<times> nat" where
  "decoderune s =
     (case s of
        [] \<Rightarrow> (runeError, 1)
      | s0 # rest \<Rightarrow>
          (if 0xC0 \<le> (of_char s0 :: nat) \<and> (of_char s0 :: nat) < 0xE0 then
             (case rest of
                s1 # _ \<Rightarrow>
                  (let r = (of_char s0 mod 32) * 64 + of_char s1 mod 64
                   in if isContinuation s1 \<and> 0x7F < r then (r, 2) else (runeError, 1))
              | _ \<Rightarrow> (runeError, 1))
           else if 0xE0 \<le> (of_char s0 :: nat) \<and> (of_char s0 :: nat) < 0xF0 then
             (case rest of
                s1 # s2 # _ \<Rightarrow>
                  (let r = (of_char s0 mod 16) * 4096 + (of_char s1 mod 64) * 64 + of_char s2 mod 64
                   in if isContinuation s1 \<and> isContinuation s2 \<and> 0x7FF < r \<and>
                         \<not> (0xD800 \<le> r \<and> r \<le> 0xDFFF)
                      then (r, 3) else (runeError, 1))
              | _ \<Rightarrow> (runeError, 1))
           else if 0xF0 \<le> (of_char s0 :: nat) \<and> (of_char s0 :: nat) < 0xF8 then
             (case rest of
                s1 # s2 # s3 # _ \<Rightarrow>
                  (let r = (of_char s0 mod 8) * 262144 + (of_char s1 mod 64) * 4096 +
                           (of_char s2 mod 64) * 64 + of_char s3 mod 64
                   in if isContinuation s1 \<and> isContinuation s2 \<and> isContinuation s3 \<and>
                         0xFFFF < r \<and> r \<le> 0x10FFFF
                      then (r, 4) else (runeError, 1))
              | _ \<Rightarrow> (runeError, 1))
           else (runeError, 1)))"

lemma decoderune_width: "decoderune s = (r, width) \<Longrightarrow> 0 < width"
  by (auto simp: decoderune_def Let_def split: list.splits if_splits)

text \<open>The runes a range statement over a string goes through.\<close>

function runes :: "string \<Rightarrow> nat list" where
  "runes [] = []"
| "runes (b # bs) =
     (if (of_char b :: nat) < 0x80 then of_char b # runes bs
      else (case decoderune (b # bs) of (r, width) \<Rightarrow> r # runes (drop width (b # bs))))"
  by pat_completeness auto
termination
  by (relation "measure length") (auto dest: decoderune_width[OF sym])

declare runes.simps [simp del]

text \<open>\<open>string(r)\<close> of a rune: its UTF-8 encoding, that of \<open>U+FFFD\<close> when it has none.\<close>

definition encoderune :: "nat \<Rightarrow> string" where
  "encoderune r =
     (if r \<le> 0x7F then [char_of r]
      else if r \<le> 0x7FF then [char_of (0xC0 + r div 64), char_of (0x80 + r mod 64)]
      else if 0x10FFFF < r \<or> (0xD800 \<le> r \<and> r \<le> 0xDFFF) then [CHR 0xEF, CHR 0xBF, CHR 0xBD]
      else if r \<le> 0xFFFF
      then [char_of (0xE0 + r div 4096), char_of (0x80 + r div 64 mod 64), char_of (0x80 + r mod 64)]
      else [char_of (0xF0 + r div 262144), char_of (0x80 + r div 4096 mod 64),
            char_of (0x80 + r div 64 mod 64), char_of (0x80 + r mod 64)])"

fun unescapeValue_loop :: "nat list \<Rightarrow> bool \<Rightarrow> string \<Rightarrow> string" where
  "unescapeValue_loop [] justRemovedBackslash newString = newString"
| "unescapeValue_loop (char # rest) justRemovedBackslash newString =
     (if char = of_char BACKSLASH \<and> \<not> justRemovedBackslash
      then unescapeValue_loop rest True newString
      else unescapeValue_loop rest False (newString @ encoderune char))"

definition unescapeValue :: "string \<Rightarrow> string" where
  "unescapeValue v = unescapeValue_loop (runes v) False []"

text \<open>
  One match: \<open>strings.SplitN(content, "=", 2)\<close> cuts at the first \<open>=\<close>, which every
  match has. A value that starts with a quote is a matched quoted string, so it has its
  closing quote and \<open>value[1 : len(value)-1]\<close> is in range.
\<close>

definition parseField :: "string \<Rightarrow> string \<times> string" where
  "parseField content =
     (let key = takeWhile (\<lambda>x. x \<noteq> CHR ''='') content;
          val = drop (Suc (length key)) content
      in (key,
          if HasPrefix val [DQUOTE]
          then unescapeValue (take (length val - 2) (drop 1 val))
          else val))"

definition parseTorReply :: "string \<Rightarrow> (string \<rightharpoonup> string)" where
  "parseTorReply reply =
     foldl (\<lambda>params content. case parseField content of (key, val) \<Rightarrow> params(key \<mapsto> val))
       Map.empty (FindAllString reply)"

definition protocolInfo_version :: "protocolInfo \<Rightarrow> string" where
  "protocolInfo_version i = Trim (case i ''Tor'' of None \<Rightarrow> [] | Some v \<Rightarrow> v) DQUOTE"

subsection \<open>package encoding/hex and the verb \<open>%x\<close>\<close>

definition fromHexChar :: "char \<Rightarrow> nat option" where
  "fromHexChar c =
     (if CHR ''0'' \<le> c \<and> c \<le> CHR ''9'' then Some (of_char c - 48)
      else if CHR ''a'' \<le> c \<and> c \<le> CHR ''f'' then Some (of_char c - 87)
      else if CHR ''A'' \<le> c \<and> c \<le> CHR ''F'' then Some (of_char c - 55)
      else None)"

text \<open>
  \<open>hex.DecodeString\<close>: pairs of hexadecimal digits of either case; a byte that is no
  digit is reported before an odd length.
\<close>

fun DecodeString :: "string \<Rightarrow> error + bytes" where
  "DecodeString [] = Inr []"
| "DecodeString [p] =
     (case fromHexChar p of None \<Rightarrow> Inl (InvalidByteError p) | Some a \<Rightarrow> Inl ErrLength)"
| "DecodeString (p # q # rest) =
     (case fromHexChar p of
        None \<Rightarrow> Inl (InvalidByteError p)
      | Some a \<Rightarrow>
          (case fromHexChar q of
             None \<Rightarrow> Inl (InvalidByteError q)
           | Some b \<Rightarrow>
               (case DecodeString rest of
                  Inl err \<Rightarrow> Inl err
                | Inr decoded \<Rightarrow> Inr (char_of (a * 16 + b) # decoded))))"

definition hexDigit :: "nat \<Rightarrow> char" where
  "hexDigit n = ''0123456789abcdef'' ! n"

text \<open>\<open>fmt.Sprintf("%x", b)\<close> for a byte slice: two lowercase digits for each byte.\<close>

fun hexEncode :: "bytes \<Rightarrow> string" where
  "hexEncode [] = []"
| "hexEncode (b # bs) =
     hexDigit (of_char b div 16) # hexDigit (of_char b mod 16) # hexEncode bs"

subsection \<open>The connection and the world around the controller\<close>

text \<open>
  A \<open>textproto.Conn\<close>: its reader, the commands handed to \<open>Cmd\<close> so far, whether it has
  been closed, and what its socket answers to a write and to \<open>Close\<close>. \<open>Cmd\<close> takes a
  format string: the controller passes the finished command with no further argument,
  so the line on the wire is the command itself when it has no \<open>%\<close>; \<open>written\<close>
  records the command as handed over. The pipeline calls \<open>StartResponse\<close> and
  \<open>EndResponse\<close> only order concurrent callers and have no counterpart here.
\<close>

record Conn =
  reader :: Reader
  written :: "string list"
  isClosed :: bool
  writeError :: "error option"
  closeError :: "error option"

definition Cmd :: "Conn \<Rightarrow> string \<Rightarrow> error option \<times> Conn" where
  "Cmd cn command =
     (if isClosed cn then (Some ErrClosed, cn)
      else (case writeError cn of
              Some err \<Rightarrow> (Some err, cn)
            | None \<Rightarrow> (None, cn\<lparr>written := written cn @ [command]\<rparr>)))"

definition Close :: "Conn \<Rightarrow> error option \<times> Conn" where
  "Close cn = (if isClosed cn then Some ErrClosed else closeError cn, cn\<lparr>isClosed := True\<rparr>)"

text \<open>
  What a call reads from outside the controller: the result of \<open>textproto.Dial\<close>, of
  \<open>os.ReadFile\<close> and of \<open>rand.Read\<close> on a slice of the given length. \<open>hmacSHA256\<close>
  stands for HMAC-SHA256 of \<open>crypto/hmac\<close> and \<open>crypto/sha256\<close>, with the key first; the
  properties below hold for every function in its place.
\<close>

record Env =
  dial :: "string \<Rightarrow> error + Conn"
  readFile :: "string \<Rightarrow> error + bytes"
  randRead :: "nat \<Rightarrow> error + bytes"
  hmacSHA256 :: "bytes \<Rightarrow> bytes \<Rightarrow> bytes"

definition serverKey :: bytes where
  "serverKey = ''Tor safe cookie authentication server-to-controller hash''"

definition controllerKey :: bytes where
  "controllerKey = ''Tor safe cookie authentication controller-to-server hash''"

definition computeHMAC256 :: "Env \<Rightarrow> bytes \<Rightarrow> bytes \<Rightarrow> bytes" where
  "computeHMAC256 env key message = hmacSHA256 env key message"

subsection \<open>Controller\<close>

record Controller =
  started :: int
  stopped :: int
  conn :: "Conn option"
  controlAddr :: string
  password :: string
  version :: string
  targetIPAddress :: string
  activeServiceID :: string

definition NewController :: "string \<Rightarrow> string \<Rightarrow> string \<Rightarrow> Controller" where
  "NewController addr target pw =
     \<lparr>started = 0, stopped = 0, conn = None, controlAddr = addr, password = pw,
      version = [], targetIPAddress = target, activeServiceID = []\<rparr>"

text \<open>
  \<open>sendCommand\<close>. A controller whose \<open>conn\<close> is nil panics in \<open>c.conn.Cmd\<close>.
\<close>

definition sendCommand :: "Controller \<Rightarrow> string \<Rightarrow> (int \<times> string \<times> error option) \<times> Controller" where
  "sendCommand c command =
     (case conn c of
        None \<Rightarrow> ((0, [], Some PanicNilDereference), c)
      | Some cn \<Rightarrow>
          (case Cmd cn command of
             (Some err, cn1) \<Rightarrow> ((0, [], Some err), c\<lparr>conn := Some cn1\<rparr>)
           | (None, cn1) \<Rightarrow>
               (case readResponse success (reader cn1) of
                  (res, r1) \<Rightarrow> (res, c\<lparr>conn := Some (cn1\<lparr>reader := r1\<rparr>)\<rparr>))))"

definition protocolInfo :: "Controller \<Rightarrow> (error + protocolInfo) \<times> Controller" where
  "protocolInfo c =
     (case sendCommand c ''PROTOCOLINFO 1'' of
        ((code, reply, Some err), c1) \<Rightarrow> (Inl err, c1)
      | ((code, reply, None), c1) \<Rightarrow> (Inr (parseTorReply reply), c1))"

definition authenticateViaNull :: "Controller \<Rightarrow> error option \<times> Controller" where
  "authenticateViaNull c =
     (case sendCommand c ''AUTHENTICATE'' of ((code, reply, err), c1) \<Rightarrow> (err, c1))"

definition authenticateViaHashedPassword :: "Controller \<Rightarrow> error option \<times> Controller" where
  "authenticateViaHashedPassword c =
     (case sendCommand c (''AUTHENTICATE '' @ [DQUOTE] @ password c @ [DQUOTE]) of
        ((code, reply, err), c1) \<Rightarrow> (err, c1))"

definition getAuthCookie :: "Env \<Rightarrow> protocolInfo \<Rightarrow> error + bytes" where
  "getAuthCookie env info =
     (case info ''COOKIEFILE'' of
        None \<Rightarrow> Inl (ErrorNew ''COOKIEFILE not found in PROTOCOLINFO reply'')
      | Some cookieFilePath \<Rightarrow>
          (case readFile env (Trim cookieFilePath DQUOTE) of
             Inl err \<Rightarrow> Inl err
           | Inr cookie \<Rightarrow>
               (if length cookie \<noteq> cookieLen
                then Inl (ErrorNew ''invalid authentication cookie length'')
                else Inr cookie)))"

definition authenticateViaSafeCookie :: "Env \<Rightarrow> Controller \<Rightarrow> protocolInfo \<Rightarrow> error option \<times> Controller" where
  "authenticateViaSafeCookie env c info =
     (case getAuthCookie env info of
        Inl err \<Rightarrow> (Some (Errorf ''unable to retrieve authentication cookie: '' err), c)
      | Inr cookie \<Rightarrow>
     (case randRead env nonceLen of
        Inl err \<Rightarrow> (Some (Errorf ''unable to generate client nonce: '' err), c)
      | Inr clientNonce \<Rightarrow>
     (case sendCommand c (''AUTHCHALLENGE SAFECOOKIE '' @ hexEncode clientNonce) of
        ((code, reply, Some err), c1) \<Rightarrow> (Some err, c1)
      | ((code, reply, None), c1) \<Rightarrow>
     (let replyParams = parseTorReply reply in
     (case replyParams ''SERVERHASH'' of
        None \<Rightarrow> (Some (ErrorNew ''server hash not found in reply''), c1)
      | Some serverHash \<Rightarrow>
     (case DecodeString serverHash of
        Inl err \<Rightarrow> (Some (Errorf ''unable to decode server hash: '' err), c1)
      | Inr decodedServerHash \<Rightarrow>
     (if length decodedServerHash \<noteq> sha256_Size
      then (Some (ErrorNew ''invalid server hash length''), c1)
      else
     (case replyParams ''SERVERNONCE'' of
        None \<Rightarrow> (Some (ErrorNew ''server nonce not found in reply''), c1)
      | Some serverNonce \<Rightarrow>
     (case DecodeString serverNonce of
        Inl err \<Rightarrow> (Some (Errorf ''unable to decode server nonce: '' err), c1)
      | Inr decodedServerNonce \<Rightarrow>
     (if length decodedServerNonce \<noteq> nonceLen
      then (Some (ErrorNew ''invalid server nonce length''), c1)
      else
     (let hmacMessage = cookie @ clientNonce @ decodedServerNonce;
          computedServerHash = computeHMAC256 env serverKey hmacMessage
      in if computedServerHash \<noteq> decodedServerHash
         then (Some (ErrorNew (''expected server hash '' @ hexEncode decodedServerHash @
                 '', got '' @ hexEncode computedServerHash)), c1)
         else
           (let clientHash = computeHMAC256 env controllerKey hmacMessage
            in if length clientHash \<noteq> sha256_Size
               then (Some (ErrorNew ''invalid client hash length''), c1)
               else
                 (case sendCommand c1 (''AUTHENTICATE '' @ hexEncode clientHash) of
                    ((code2, reply2, Some err), c2) \<Rightarrow> (Some err, c2)
                  | ((code2, reply2, None), c2) \<Rightarrow> (None, c2))))))))))))))"

definition authenticate :: "Env \<Rightarrow> Controller \<Rightarrow> error option \<times> Controller" where
  "authenticate env c =
     (case protocolInfo c of
        (Inl err, c1) \<Rightarrow> (Some err, c1)
      | (Inr info, c1) \<Rightarrow>
          (let c2 = c1\<lparr>version := protocolInfo_version info\<rparr>
           in if password c2 \<noteq> [] then
                (if \<not> supportsAuthMethod info authHashedPassword
                 then (Some (ErrorNew (authHashedPassword @
                         '' authentication method not supported'')), c2)
                 else authenticateViaHashedPassword c2)
              else if supportsAuthMethod info authSafeCookie then
                authenticateViaSafeCookie env c2 info
              else if supportsAuthMethod info authNull then
                authenticateViaNull c2
              else (Some (ErrorNew (''the Tor server must be configured with '' @
                      ''NULL, SAFECOOKIE, or HASHEDPASSWORD authentication'')), c2)))"

text \<open>
  \<open>Start\<close>. \<open>atomic.CompareAndSwapInt32(&c.started, 0, 1)\<close> succeeds when the flag is 0
  and then sets it.
\<close>

definition Start :: "Env \<Rightarrow> Controller \<Rightarrow> error option \<times> Controller" where
  "Start env c =
     (if started c \<noteq> 0 then (None, c)
      else
        (let c1 = c\<lparr>started := 1\<rparr>
         in (case dial env (controlAddr c1) of
               Inl err \<Rightarrow> (Some (Errorf ''unable to connect to Tor server: '' err), c1)
             | Inr cn \<Rightarrow> authenticate env (c1\<lparr>conn := Some cn\<rparr>))))"

text \<open>
  Modelled from the spec: \<open>DelOnion\<close>, a method of the controller whose file is not among
  the sources. The specification gives \<open>del_onion(service_id) \<rightarrow> ok | err\<close> and the
  command \<open>DEL_ONION <service-id>\<close>: the command is sent with \<open>sendCommand\<close> and its
  error, if any, returned.
\<close>

definition DelOnion :: "Controller \<Rightarrow> string \<Rightarrow> error option \<times> Controller" where
  "DelOnion c serviceID =
     (case sendCommand c (''DEL_ONION '' @ serviceID) of ((code, reply, err), c1) \<Rightarrow> (err, c1))"

definition Stop :: "Controller \<Rightarrow> error option \<times> Controller" where
  "Stop c =
     (if stopped c \<noteq> 0 then (None, c)
      else
        (let c1 = c\<lparr>stopped := 1\<rparr>
         in (case DelOnion c1 (activeServiceID c1) of
               (Some err, c2) \<Rightarrow> (Some err, c2)
             | (None, c2) \<Rightarrow>
                 (let c3 = c2\<lparr>activeServiceID := []\<rparr>
                  in (case conn c3 of
                        None \<Rightarrow> (Some PanicNilDereference, c3)
                      | Some cn \<Rightarrow>
                          (case Close cn of (err, cn1) \<Rightarrow> (err, c3\<lparr>conn := Some cn1\<rparr>)))))))"

definition Reconnect :: "Env \<Rightarrow> Controller \<Rightarrow> error option \<times> Controller" where
  "Reconnect env c =
     (if started c \<noteq> 1 then (Some errTCNotStarted, c)
      else if stopped c \<noteq> 0 then (Some errTCStopped, c)
      else
        (let c1 = (case conn c of
                     None \<Rightarrow> c
                   | Some cn \<Rightarrow> c\<lparr>conn := Some (snd (Close cn))\<rparr>)
         in (case dial env (controlAddr c1) of
               Inl err \<Rightarrow> (Some (Errorf ''unable to connect to Tor server: '' err), c1)
             | Inr cn \<Rightarrow>
                 (case authenticate env (c1\<lparr>conn := Some cn\<rparr>) of
                    (Some err, c2) \<Rightarrow> (Some err, c2)
                  | (None, c2) \<Rightarrow> (None, c2\<lparr>activeServiceID := []\<rparr>)))))"


section \<open>lnwire: address lists\<close>

text \<open>
  Of package \<open>lnwire\<close> only its test file is among the sources; the codec of an address
  list is taken from the specification (4.1, address-list encoding, and 3, address
  list). Bytes are \<open>char\<close>s as above.
\<close>

text \<open>
  Modelled from the spec: the addresses of an address list (\<open>net.TCPAddr\<close>,
  \<open>tor.OnionAddr\<close> and \<open>OpaqueAddrs\<close> are declared outside the sources). An IPv4 or IPv6
  address with its port, a Tor v2 or v3 onion address as its decoded service ID (10 or
  35 bytes) with its port, and an opaque address, whose payload begins with the unknown
  discriminator.
\<close>

datatype NetAddr =
    TCPAddr4 bytes nat
  | TCPAddr6 bytes nat
  | OnionAddrV2 bytes nat
  | OnionAddrV3 bytes nat
  | OpaqueAddrs bytes


text \<open>A port and the length prefix are two bytes, big-endian.\<close>

definition be16 :: "nat \<Rightarrow> bytes" where
  "be16 n = [char_of (n div 256), char_of (n mod 256)]"

definition readBe16 :: "bytes \<Rightarrow> nat" where
  "readBe16 b = of_char (b ! 0) * 256 + of_char (b ! 1)"


text \<open>
  Modelled from the spec: one address on the wire (part of the absent \<open>WriteNetAddrs\<close>):
  the discriminator 1, 2, 3 or 4 followed by the payload of 6, 18, 12 or 37 bytes; an
  opaque payload is emitted as it is.
\<close>

fun encodeAddr :: "NetAddr \<Rightarrow> bytes" where
  "encodeAddr (TCPAddr4 ip port) = CHR 0x01 # ip @ be16 port"
| "encodeAddr (TCPAddr6 ip port) = CHR 0x02 # ip @ be16 port"
| "encodeAddr (OnionAddrV2 serviceID port) = CHR 0x03 # serviceID @ be16 port"
| "encodeAddr (OnionAddrV3 serviceID port) = CHR 0x04 # serviceID @ be16 port"
| "encodeAddr (OpaqueAddrs payload) = payload"


text \<open>
  Modelled from the spec: \<open>WriteNetAddrs\<close> (absent from the sources): a two-byte
  big-endian total length, then the addresses one after the other. The specification
  does not say what a list longer than the prefix can count does; the model refuses it.
\<close>

definition WriteNetAddrs :: "NetAddr list \<Rightarrow> error + bytes" where
  "WriteNetAddrs addrs =
     (let body = concat (map encodeAddr addrs)
      in if length body > 65535 then Inl (ErrorNew ''address list too long'')
         else Inr (be16 (length body) @ body))"


text \<open>
  Modelled from the spec: the address loop of the absent \<open>ReadElement\<close> for an address
  list: a known discriminator takes its fixed payload; any other discriminator takes,
  with itself, all the bytes that remain, as one opaque address.
\<close>

fun parseAddrs :: "bytes \<Rightarrow> error + NetAddr list" where
  "parseAddrs [] = Inr []"
| "parseAddrs (d # rest) =
     (if d = CHR 0x01 then
        (if length rest < 6 then Inl ErrUnexpectedEOF
         else map_sum id ((#) (TCPAddr4 (take 4 rest) (readBe16 (drop 4 rest))))
                (parseAddrs (drop 6 rest)))
      else if d = CHR 0x02 then
        (if length rest < 18 then Inl ErrUnexpectedEOF
         else map_sum id ((#) (TCPAddr6 (take 16 rest) (readBe16 (drop 16 rest))))
                (parseAddrs (drop 18 rest)))
      else if d = CHR 0x03 then
        (if length rest < 12 then Inl ErrUnexpectedEOF
         else map_sum id ((#) (OnionAddrV2 (take 10 rest) (readBe16 (drop 10 rest))))
                (parseAddrs (drop 12 rest)))
      else if d = CHR 0x04 then
        (if length rest < 37 then Inl ErrUnexpectedEOF
         else map_sum id ((#) (OnionAddrV3 (take 35 rest) (readBe16 (drop 35 rest))))
                (parseAddrs (drop 37 rest)))
      else Inr [OpaqueAddrs (d # rest)])"


text \<open>
  Modelled from the spec: \<open>ReadElement\<close> into an address list (absent from the sources):
  the length prefix, then the addresses within that many bytes.
\<close>

definition ReadNetAddrs :: "bytes \<Rightarrow> error + NetAddr list" where
  "ReadNetAddrs input =
     (if length input < 2 then Inl ErrUnexpectedEOF
      else (let n = readBe16 input; rest = drop 2 input
            in if length rest < n then Inl ErrUnexpectedEOF
               else parseAddrs (take n rest)))"


text \<open>
  Modelled from the spec: the string form of an opaque address (\<open>OpaqueAddrs.String\<close>,
  absent from the sources), the hexadecimal encoding of its payload.
\<close>

definition OpaqueAddrs_String :: "bytes \<Rightarrow> string" where
  "OpaqueAddrs_String payload = hexEncode payload"


text \<open>
  The host of an onion address is the base32 encoding of its service ID in the lowercase
  alphabet, followed by \<open>.onion\<close>; \<open>base32Decode\<close> turns the host into the service ID,
  five bits for each letter.
\<close>

definition base32Alphabet :: string where
  "base32Alphabet = ''abcdefghijklmnopqrstuvwxyz234567''"

definition bits5 :: "nat \<Rightarrow> bool list" where
  "bits5 v = [odd (v div 16), odd (v div 8), odd (v div 4), odd (v div 2), odd v]"

fun bitsToBytes :: "bool list \<Rightarrow> bytes" where
  "bitsToBytes (b7 # b6 # b5 # b4 # b3 # b2 # b1 # b0 # rest) =
     Char b0 b1 b2 b3 b4 b5 b6 b7 # bitsToBytes rest"
| "bitsToBytes rest = []"

definition base32Decode :: "string \<Rightarrow> bytes" where
  "base32Decode s =
     bitsToBytes (concat (map (\<lambda>c. bits5 (length (takeWhile (\<lambda>x. x \<noteq> c) base32Alphabet))) s))"


section \<open>The specification's vocabulary\<close>

text \<open>
  Definitions that follow the words of the specification, to compare the functions
  above with. A version string is well formed when it consists of exactly four parts
  separated by dots, each of which parses as an integer, the last one up to its first
  dash. A part parses as an integer when it is an optional sign followed by at least one
  decimal digit and its value fits a 64-bit \<open>int\<close>.
\<close>

definition spec_decimal :: "string \<Rightarrow> nat" where
  "spec_decimal ds = foldl (\<lambda>n c. n * 10 + digitVal c) 0 ds"

definition spec_parsesAsInteger :: "string \<Rightarrow> bool" where
  "spec_parsesAsInteger s =
     (\<exists>sgn ds. s = sgn @ ds \<and> (sgn = [] \<or> sgn = ''+'' \<or> sgn = ''-'') \<and>
        ds \<noteq> [] \<and> list_all isDigit ds \<and>
        (if sgn = ''-'' then spec_decimal ds \<le> 2 ^ 63 else spec_decimal ds < 2 ^ 63))"

definition spec_wellFormedVersion :: "string \<Rightarrow> bool" where
  "spec_wellFormedVersion v =
     (\<exists>a b c d. v = a @ ''.'' @ b @ ''.'' @ c @ ''.'' @ d \<and>
        CHR ''.'' \<notin> set a \<and> CHR ''.'' \<notin> set b \<and> CHR ''.'' \<notin> set c \<and> CHR ''.'' \<notin> set d \<and>
        spec_parsesAsInteger a \<and> spec_parsesAsInteger b \<and> spec_parsesAsInteger c \<and>
        spec_parsesAsInteger (takeWhile (\<lambda>x. x \<noteq> CHR ''-'') d))"


text \<open>
  The reply grammar of the control protocol, as the comment of \<open>readResponse\<close> and the
  specification give it: a reply is a sequence of lines, each a three-digit status code,
  a separator and a text, closed by CR LF; a data line is followed by its data lines,
  dot-stuffed and closed by a line that is a single dot. \<open>spec_wire\<close> is the bytes of a
  line on the wire, \<open>spec_text\<close> what the specification wants in the parsed reply: the
  text, for a data line followed by its data lines joined with commas.
\<close>

datatype ReplyLine =
    MidReplyLine nat string
  | DataReplyLine nat string "string list"
  | EndReplyLine nat string

definition spec_StatusCode :: "nat \<Rightarrow> string" where
  "spec_StatusCode n =
     [''0123456789'' ! (n div 100), ''0123456789'' ! (n div 10 mod 10), ''0123456789'' ! (n mod 10)]"

definition spec_CmdData :: "string list \<Rightarrow> string" where
  "spec_CmdData ds =
     concat (map (\<lambda>d. (if d \<noteq> [] \<and> hd d = CHR ''.'' then CHR ''.'' # d else d) @ [CR, LF]) ds)
     @ [CHR ''.'', CR, LF]"

fun spec_code :: "ReplyLine \<Rightarrow> nat" where
  "spec_code (MidReplyLine c t) = c"
| "spec_code (DataReplyLine c t ds) = c"
| "spec_code (EndReplyLine c t) = c"

fun spec_isEnd :: "ReplyLine \<Rightarrow> bool" where
  "spec_isEnd (EndReplyLine c t) = True"
| "spec_isEnd l = False"

fun spec_wire :: "ReplyLine \<Rightarrow> string" where
  "spec_wire (MidReplyLine c t) = spec_StatusCode c @ CHR ''-'' # t @ [CR, LF]"
| "spec_wire (DataReplyLine c t ds) = spec_StatusCode c @ CHR ''+'' # t @ [CR, LF] @ spec_CmdData ds"
| "spec_wire (EndReplyLine c t) = spec_StatusCode c @ CHR '' '' # t @ [CR, LF]"

fun spec_text :: "ReplyLine \<Rightarrow> string" where
  "spec_text (MidReplyLine c t) = t"
| "spec_text (DataReplyLine c t ds) = t @ Join ds '',''"
| "spec_text (EndReplyLine c t) = t"

fun spec_wellFormedLine :: "ReplyLine \<Rightarrow> bool" where
  "spec_wellFormedLine (MidReplyLine c t) = (c < 1000 \<and> LF \<notin> set t)"
| "spec_wellFormedLine (DataReplyLine c t ds) =
     (c < 1000 \<and> LF \<notin> set t \<and> list_all (\<lambda>d. LF \<notin> set d) ds)"
| "spec_wellFormedLine (EndReplyLine c t) = (c < 1000 \<and> LF \<notin> set t)"

definition spec_continues :: "int \<Rightarrow> ReplyLine \<Rightarrow> bool" where
  "spec_continues expected l =
     (spec_wellFormedLine l \<and> \<not> spec_isEnd l \<and> int (spec_code l) = expected)"

definition spec_finishes :: "int \<Rightarrow> ReplyLine \<Rightarrow> bool" where
  "spec_finishes expected l =
     (spec_wellFormedLine l \<and> (spec_isEnd l \<or> int (spec_code l) \<noteq> expected))"


text \<open>
  An address of one of the four known kinds with a payload of the right size, and a
  discriminator that is none of theirs.
\<close>

fun spec_knownAddr :: "NetAddr \<Rightarrow> bool" where
  "spec_knownAddr (TCPAddr4 ip port) = (length ip = 4 \<and> port < 65536)"
| "spec_knownAddr (TCPAddr6 ip port) = (length ip = 16 \<and> port < 65536)"
| "spec_knownAddr (OnionAddrV2 serviceID port) = (length serviceID = 10 \<and> port < 65536)"
| "spec_knownAddr (OnionAddrV3 serviceID port) = (length serviceID = 35 \<and> port < 65536)"
| "spec_knownAddr (OpaqueAddrs payload) = False"

definition spec_unknownType :: "char \<Rightarrow> bool" where
  "spec_unknownType d = (d \<noteq> CHR 0x01 \<and> d \<noteq> CHR 0x02 \<and> d \<noteq> CHR 0x03 \<and> d \<noteq> CHR 0x04)"


text \<open>
  The bytes a reader still produces, buffered or not. A reader \<open>r'\<close> is reached from
  \<open>r\<close> by fetching for \<open>consumed\<close> when it has taken \<open>consumed\<close> off the front of the
  bytes of \<open>r\<close> and has read from the socket the first \<open>k\<close> portions only, where
  \<open>consumed\<close> was not yet complete before the last of them: no portion is read that is
  not needed.
\<close>

definition stream :: "Reader \<Rightarrow> bytes" where
  "stream r = buffered r @ concat (incoming r)"

definition fetches :: "Reader \<Rightarrow> bytes \<Rightarrow> Reader \<Rightarrow> bool" where
  "fetches r consumed r' =
     (\<exists>k. incoming r' = drop k (incoming r) \<and>
          buffered r @ concat (take k (incoming r)) = consumed @ buffered r' \<and>
          (k = 0 \<or> length (buffered r @ concat (take (k - 1) (incoming r))) < length consumed))"


section \<open>Example connections\<close>

text \<open>
  A connection that delivers the given chunks, one for each read of the socket, and
  accepts every write; the reply of a Tor daemon to \<open>PROTOCOLINFO 1\<close> that advertises
  the given methods; a controller that has been started on such a connection; and a
  world in which \<open>Dial\<close> yields the given connection, the cookie file holds 32 bytes and
  \<open>rand.Read\<close> yields a fixed nonce. \<open>exampleMAC\<close> stands in for HMAC-SHA256 in the
  examples: 32 bytes that depend on the key and the message.
\<close>

definition exampleConn :: "bytes list \<Rightarrow> Conn" where
  "exampleConn chunks =
     \<lparr>reader = \<lparr>buffered = [], incoming = chunks\<rparr>, written = [], isClosed = False,
      writeError = None, closeError = None\<rparr>"

definition exampleProtocolInfoReply :: "string \<Rightarrow> bytes" where
  "exampleProtocolInfoReply methods =
     ''250-PROTOCOLINFO 1'' @ [CR, LF] @
     ''250-AUTH METHODS='' @ methods @ '' COOKIEFILE='' @ [DQUOTE] @
       ''/run/tor/control.authcookie'' @ [DQUOTE] @ [CR, LF] @
     ''250-VERSION Tor='' @ [DQUOTE] @ ''0.4.7.13'' @ [DQUOTE] @ [CR, LF] @
     ''250 OK'' @ [CR, LF]"

definition exampleMAC :: "bytes \<Rightarrow> bytes \<Rightarrow> bytes" where
  "exampleMAC key message = take 32 (rev key @ message)"

definition exampleEnv :: "Conn \<Rightarrow> Env" where
  "exampleEnv cn =
     \<lparr>dial = (\<lambda>addr. Inr cn),
      readFile = (\<lambda>path. if path = ''/run/tor/control.authcookie''
                         then Inr ''0123456789abcdefghijklmnopqrstuv'' else Inl ErrNotExist),
      randRead = (\<lambda>n. Inr (take n ''client-nonce-client-nonce-client'')),
      hmacSHA256 = exampleMAC\<rparr>"

definition exampleRunning :: "string \<Rightarrow> string \<Rightarrow> bytes list \<Rightarrow> Controller" where
  "exampleRunning pw serviceID chunks =
     (NewController ''127.0.0.1:9051'' ''127.0.0.1'' pw)
       \<lparr>started := 1, conn := Some (exampleConn chunks), activeServiceID := serviceID\<rparr>"

definition exampleChallengeReply :: bytes where
  "exampleChallengeReply =
     ''250 AUTHCHALLENGE SERVERHASH='' @
       hexEncode (exampleMAC serverKey
         (''0123456789abcdefghijklmnopqrstuv'' @ ''client-nonce-client-nonce-client'' @ ''server-nonce-server-nonce-server'')) @
     '' SERVERNONCE='' @ hexEncode ''server-nonce-server-nonce-server'' @ [CR, LF]"


section \<open>Verified properties\<close>

subsection \<open>Strings\<close>

lemma HasPrefix_iff: "HasPrefix s p \<longleftrightarrow> (\<exists>q. s = p @ q)"
  by (induction s p rule: HasPrefix.induct) auto

lemma Contains_iff: "Contains s sub \<longleftrightarrow> (\<exists>p q. s = p @ sub @ q)"
proof (induction s)
  case Nil
  then show ?case by auto
next
  case (Cons x xs)
  show ?case
  proof
    assume "Contains (x # xs) sub"
    then consider "HasPrefix (x # xs) sub" | "Contains xs sub" by auto
    then show "\<exists>p q. x # xs = p @ sub @ q"
    proof cases
      case 1
      then obtain q where "x # xs = sub @ q" by (auto simp: HasPrefix_iff)
      then have "x # xs = [] @ sub @ q" by simp
      then show ?thesis by blast
    next
      case 2
      then obtain p q where "xs = p @ sub @ q" using Cons.IH by blast
      then have "x # xs = (x # p) @ sub @ q" by simp
      then show ?thesis by blast
    qed
  next
    assume "\<exists>p q. x # xs = p @ sub @ q"
    then obtain p q where pq: "x # xs = p @ sub @ q" by blast
    show "Contains (x # xs) sub"
    proof (cases p)
      case Nil
      with pq have "HasPrefix (x # xs) sub" by (auto simp: HasPrefix_iff)
      then show ?thesis by simp
    next
      case (Cons a p')
      with pq have "xs = p' @ sub @ q" by simp
      then have "Contains xs sub" using Cons.IH by blast
      then show ?thesis by simp
    qed
  qed
qed

lemma Split_not_Nil: "Split s c \<noteq> []"
  by (induction s) (auto split: list.splits)

lemma Split_no_sep: "c \<notin> set a \<Longrightarrow> Split a c = [a]"
  by (induction a) auto

lemma Split_append: "c \<notin> set a \<Longrightarrow> Split (a @ c # rest) c = a # Split rest c"
  by (induction a) auto

lemma Split_Cons_cases:
  "Split s c = p # ps \<Longrightarrow>
     c \<notin> set p \<and> ((ps = [] \<and> s = p) \<or> (\<exists>rest. s = p @ c # rest \<and> Split rest c = ps \<and> ps \<noteq> []))"
proof (induction s arbitrary: p ps)
  case Nil
  then show ?case by auto
next
  case (Cons x xs)
  show ?case
  proof (cases "x = c")
    case True
    with Cons.prems have "p = []" "ps = Split xs c" by auto
    then show ?thesis using True Split_not_Nil[of xs c] by auto
  next
    case False
    obtain q qs where q: "Split xs c = q # qs"
      using Split_not_Nil[of xs c] by (cases "Split xs c") auto
    with Cons.prems False have p: "p = x # q" "ps = qs" by auto
    from Cons.IH[OF q] show ?thesis using p False by auto
  qed
qed

lemma Split_hd: "Split d c ! 0 = takeWhile (\<lambda>x. x \<noteq> c) d"
proof (induction d)
  case Nil
  then show ?case by simp
next
  case (Cons x xs)
  then show ?case using Split_not_Nil[of xs c] by (auto split: list.splits)
qed

lemma Split_four:
  "length (Split v c) = 4 \<longleftrightarrow>
     (\<exists>p1 p2 p3 p4. v = p1 @ [c] @ p2 @ [c] @ p3 @ [c] @ p4 \<and>
        c \<notin> set p1 \<and> c \<notin> set p2 \<and> c \<notin> set p3 \<and> c \<notin> set p4)"
proof
  assume "length (Split v c) = 4"
  then obtain p1 p2 p3 p4 where s: "Split v c = [p1, p2, p3, p4]"
    by (auto simp: length_Suc_conv numeral_eq_Suc)
  from Split_Cons_cases[OF s] obtain r1 where
    1: "c \<notin> set p1" "v = p1 @ c # r1" "Split r1 c = [p2, p3, p4]" by auto
  from Split_Cons_cases[OF 1(3)] obtain r2 where
    2: "c \<notin> set p2" "r1 = p2 @ c # r2" "Split r2 c = [p3, p4]" by auto
  from Split_Cons_cases[OF 2(3)] obtain r3 where
    3: "c \<notin> set p3" "r2 = p3 @ c # r3" "Split r3 c = [p4]" by auto
  from Split_Cons_cases[OF 3(3)] have 4: "c \<notin> set p4" "r3 = p4" by auto
  show "\<exists>p1 p2 p3 p4. v = p1 @ [c] @ p2 @ [c] @ p3 @ [c] @ p4 \<and>
        c \<notin> set p1 \<and> c \<notin> set p2 \<and> c \<notin> set p3 \<and> c \<notin> set p4"
    using 1 2 3 4 by auto
next
  assume "\<exists>p1 p2 p3 p4. v = p1 @ [c] @ p2 @ [c] @ p3 @ [c] @ p4 \<and>
        c \<notin> set p1 \<and> c \<notin> set p2 \<and> c \<notin> set p3 \<and> c \<notin> set p4"
  then show "length (Split v c) = 4"
    by (auto simp: Split_append Split_no_sep)
qed

lemma Split_four_eq:
  "c \<notin> set p1 \<Longrightarrow> c \<notin> set p2 \<Longrightarrow> c \<notin> set p3 \<Longrightarrow> c \<notin> set p4 \<Longrightarrow>
   Split (p1 @ [c] @ p2 @ [c] @ p3 @ [c] @ p4) c = [p1, p2, p3, p4]"
  by (simp add: Split_append Split_no_sep)

lemma foldl_dec_mono: "n \<le> foldl (\<lambda>n c. n * 10 + digitVal c) n ds"
proof (induction ds arbitrary: n)
  case Nil
  then show ?case by simp
next
  case (Cons d ds)
  have "n \<le> n * 10 + digitVal d" by simp
  also have "\<dots> \<le> foldl (\<lambda>n c. n * 10 + digitVal c) (n * 10 + digitVal d) ds"
    by (rule Cons.IH)
  finally show ?case by simp
qed

lemma parseUint_digits:
  "list_all isDigit ds \<Longrightarrow> n < 2 ^ 64 \<Longrightarrow>
   parseUint ds n =
     (if foldl (\<lambda>n c. n * 10 + digitVal c) n ds < 2 ^ 64
      then Inr (foldl (\<lambda>n c. n * 10 + digitVal c) n ds) else Inl ErrRange)"
proof (induction ds arbitrary: n)
  case Nil
  then show ?case by simp
next
  case (Cons d ds)
  let ?m = "n * 10 + digitVal d"
  from Cons.prems have d: "isDigit d" and ds: "list_all isDigit ds" by auto
  note IH = Cons.IH[OF ds, of ?m]
  show ?case
  proof (cases "?m \<ge> 2 ^ 64")
    case True
    moreover have "?m \<le> foldl (\<lambda>n c. n * 10 + digitVal c) ?m ds"
      by (rule foldl_dec_mono)
    ultimately show ?thesis using d by auto
  next
    case False
    then show ?thesis using d IH by auto
  qed
qed

lemma parseUint_nondigit:
  "\<not> list_all isDigit ds \<Longrightarrow> \<exists>e. parseUint ds n = Inl e"
  by (induction ds arbitrary: n) auto

lemma isDigit_not_sign: "isDigit c \<Longrightarrow> c \<noteq> CHR ''+'' \<and> c \<noteq> CHR ''-''"
  by (auto simp: isDigit_def)

lemma Atoi_ok_unsigned:
  assumes "ds \<noteq> []" "list_all isDigit ds"
  shows "snd (Atoi ds) = None \<longleftrightarrow> spec_decimal ds < 2 ^ 63"
proof -
  obtain c cs where ds: "ds = c # cs" using assms(1) by (cases ds) auto
  with assms(2) have "isDigit c" by simp
  then have ns: "c \<noteq> CHR ''+''" "c \<noteq> CHR ''-''" using isDigit_not_sign by auto
  have "(2::nat) ^ 63 < 2 ^ 64" by simp
  then show ?thesis
    using ns assms(2) parseUint_digits[OF assms(2), of 0] unfolding ds
    by (auto simp: Atoi_def spec_decimal_def Let_def)
qed

lemma Atoi_ok_plus:
  assumes "ds \<noteq> []" "list_all isDigit ds"
  shows "snd (Atoi (CHR ''+'' # ds)) = None \<longleftrightarrow> spec_decimal ds < 2 ^ 63"
proof -
  have "(2::nat) ^ 63 < 2 ^ 64" by simp
  then show ?thesis
    using assms parseUint_digits[OF assms(2), of 0]
    by (auto simp: Atoi_def spec_decimal_def Let_def)
qed

lemma Atoi_ok_minus:
  assumes "ds \<noteq> []" "list_all isDigit ds"
  shows "snd (Atoi (CHR ''-'' # ds)) = None \<longleftrightarrow> spec_decimal ds \<le> 2 ^ 63"
proof -
  have "(2::nat) ^ 63 < 2 ^ 64" by simp
  then show ?thesis
    using assms parseUint_digits[OF assms(2), of 0]
    by (auto simp: Atoi_def spec_decimal_def Let_def)
qed

lemma Atoi_iff: "snd (Atoi s) = None \<longleftrightarrow> spec_parsesAsInteger s"
proof
  assume ok: "snd (Atoi s) = None"
  then obtain c cs where s: "s = c # cs" by (cases s) (auto simp: Atoi_def)
  define ds where "ds = (if c = CHR ''+'' \<or> c = CHR ''-'' then cs else s)"
  from ok have ne: "ds \<noteq> []"
    unfolding s ds_def by (auto simp: Atoi_def Let_def split: if_splits)
  from ok have "\<exists>un. parseUint ds 0 = Inr un"
    unfolding s ds_def by (auto simp: Atoi_def Let_def split: if_splits sum.splits)
  then have dig: "list_all isDigit ds"
    using parseUint_nondigit[of ds 0] by (cases "list_all isDigit ds") auto
  show "spec_parsesAsInteger s"
  proof (cases "c = CHR ''+''")
    case True
    then have e: "s = ''+'' @ ds" by (simp add: s ds_def)
    have r: "spec_decimal ds < 2 ^ 63"
      using Atoi_ok_plus[OF ne dig] ok True by (simp add: s ds_def)
    show ?thesis
      unfolding spec_parsesAsInteger_def
      by (rule exI[of _ "''+''"], rule exI[of _ ds]) (use e r ne dig in simp)
  next
    case False
    note notplus = False
    show ?thesis
    proof (cases "c = CHR ''-''")
      case True
      then have e: "s = ''-'' @ ds" by (simp add: s ds_def)
      have r: "spec_decimal ds \<le> 2 ^ 63"
        using Atoi_ok_minus[OF ne dig] ok True by (simp add: s ds_def)
      show ?thesis
        unfolding spec_parsesAsInteger_def
        by (rule exI[of _ "''-''"], rule exI[of _ ds]) (use e r ne dig in simp)
    next
      case False
      with notplus have e: "s = ds" by (simp add: ds_def)
      have r: "spec_decimal ds < 2 ^ 63"
        using Atoi_ok_unsigned[OF ne dig] ok e by simp
      show ?thesis
        unfolding spec_parsesAsInteger_def
        by (rule exI[of _ "[]"], rule exI[of _ ds]) (use e r ne dig in simp)
    qed
  qed
next
  assume "spec_parsesAsInteger s"
  then obtain sgn ds where d: "s = sgn @ ds" "sgn = [] \<or> sgn = ''+'' \<or> sgn = ''-''"
      "ds \<noteq> []" "list_all isDigit ds"
      "if sgn = ''-'' then spec_decimal ds \<le> 2 ^ 63 else spec_decimal ds < 2 ^ 63"
    unfolding spec_parsesAsInteger_def by blast
  from d(2) show "snd (Atoi s) = None"
  proof (elim disjE)
    assume "sgn = []"
    then show ?thesis using d Atoi_ok_unsigned[OF d(3,4)] by simp
  next
    assume "sgn = ''+''"
    then show ?thesis using d Atoi_ok_plus[OF d(3,4)] by simp
  next
    assume "sgn = ''-''"
    then show ?thesis using d Atoi_ok_minus[OF d(3,4)] by simp
  qed
qed

lemma firstAtoiError_four:
  "firstAtoiError [a, b, c, d] = None \<longleftrightarrow>
     snd (Atoi a) = None \<and> snd (Atoi b) = None \<and> snd (Atoi c) = None \<and> snd (Atoi d) = None"
  by (auto split: option.splits)

lemma supportsV3_parts:
  assumes "CHR ''.'' \<notin> set a" "CHR ''.'' \<notin> set b" "CHR ''.'' \<notin> set c" "CHR ''.'' \<notin> set d"
    and v: "v = a @ ''.'' @ b @ ''.'' @ c @ ''.'' @ d"
  shows "supportsV3 v = None \<longleftrightarrow>
     firstAtoiError [a, b, c, takeWhile (\<lambda>x. x \<noteq> CHR ''-'') d] = None \<and> \<not> v < MinTorVersion"
proof -
  have sp: "Split v (CHR ''.'') = [a, b, c, d]"
    unfolding v using Split_four_eq[OF assms(1-4)] by simp
  show ?thesis
    unfolding supportsV3_def sp Let_def
    by (simp add: Split_hd split: option.splits)
qed


lemma wellFormedVersion_four_parts:
  "spec_wellFormedVersion v \<Longrightarrow> length (Split v (CHR ''.'')) = 4"
proof -
  assume "spec_wellFormedVersion v"
  then obtain a b c d where "v = a @ ''.'' @ b @ ''.'' @ c @ ''.'' @ d"
    "CHR ''.'' \<notin> set a" "CHR ''.'' \<notin> set b" "CHR ''.'' \<notin> set c" "CHR ''.'' \<notin> set d"
    unfolding spec_wellFormedVersion_def by blast
  then show ?thesis using Split_four_eq[of "CHR ''.''" a b c d] by simp
qed

lemma wellFormedVersion_intro:
  assumes "CHR ''.'' \<notin> set a" "CHR ''.'' \<notin> set b" "CHR ''.'' \<notin> set c" "CHR ''.'' \<notin> set d"
    and "snd (Atoi a) = None" "snd (Atoi b) = None" "snd (Atoi c) = None"
    and "snd (Atoi (takeWhile (\<lambda>x. x \<noteq> CHR ''-'') d)) = None"
  shows "spec_wellFormedVersion (a @ ''.'' @ b @ ''.'' @ c @ ''.'' @ d)"
  unfolding spec_wellFormedVersion_def using assms unfolding Atoi_iff by blast


subsection \<open>The reply parser\<close>

lemma digit_char:
  assumes "d < 10"
  shows "isDigit (''0123456789'' ! d) \<and> digitVal (''0123456789'' ! d) = d \<and>
         ''0123456789'' ! d \<noteq> LF \<and> ''0123456789'' ! d \<noteq> CHR ''+'' \<and> ''0123456789'' ! d \<noteq> CHR ''-''"
proof -
  from assms have "d = 0 \<or> d = 1 \<or> d = 2 \<or> d = 3 \<or> d = 4 \<or> d = 5 \<or> d = 6 \<or>
      d = 7 \<or> d = 8 \<or> d = 9" by arith
  then show ?thesis
    by (elim disjE) (simp_all add: isDigit_def digitVal_def)
qed

lemma StatusCode_length: "length (spec_StatusCode c) = 3"
  by (simp add: spec_StatusCode_def)

lemma StatusCode_no_LF: "c < 1000 \<Longrightarrow> LF \<notin> set (spec_StatusCode c)"
proof -
  assume c: "c < 1000"
  then have "c div 100 < 10" "c div 10 mod 10 < 10" "c mod 10 < 10" by auto
  then show ?thesis
    using digit_char[of "c div 100"] digit_char[of "c div 10 mod 10"] digit_char[of "c mod 10"]
    by (auto simp: spec_StatusCode_def)
qed

lemma Atoi_StatusCode: "c < 1000 \<Longrightarrow> Atoi (spec_StatusCode c) = (int c, None)"
proof -
  assume c: "c < 1000"
  let ?a = "c div 100" and ?b = "c div 10 mod 10" and ?d = "c mod 10"
  have r: "?a < 10" "?b < 10" "?d < 10" using c by auto
  note A = digit_char[OF r(1)] and B = digit_char[OF r(2)] and D = digit_char[OF r(3)]
  have e1: "c div 10 div 10 * 10 + c div 10 mod 10 = c div 10" by (rule div_mult_mod_eq)
  have e2: "c div 10 * 10 + c mod 10 = c" by (rule div_mult_mod_eq)
  have e3: "c div 100 = c div 10 div 10" by (simp add: div_mult2_eq)
  have val: "(?a * 10 + ?b) * 10 + ?d = c" using e1 e2 e3 by simp
  have val2: "?a * 10 + ?b = c div 10" using e1 e3 by simp
  have small: "?a < 2 ^ 64" "c div 10 < 2 ^ 64" "c < 2 ^ 64" "c < 2 ^ 63"
    using c by simp_all
  have "parseUint (spec_StatusCode c) 0 = Inr c"
    using A B D small val val2 by (simp add: spec_StatusCode_def)
  then show ?thesis
    using A small unfolding Atoi_def spec_StatusCode_def
    by (simp add: Let_def)
qed

lemma ReadDotLines_loop_step:
  "ReadLine r = (Inr line, r1) \<Longrightarrow>
   ReadDotLines_loop v r =
     (if line \<noteq> [] \<and> hd line = CHR ''.''
      then (if length line = 1 then ((v, None), r1) else ReadDotLines_loop (v @ [tl line]) r1)
      else ReadDotLines_loop (v @ [line]) r1)"
  by (subst ReadDotLines_loop.simps) simp

lemma CmdData_Cons:
  "spec_CmdData (d # ds) @ rest =
     (if d \<noteq> [] \<and> hd d = CHR ''.'' then CHR ''.'' # d else d) @ CR # LF # (spec_CmdData ds @ rest)"
  by (simp add: spec_CmdData_def)

lemma readResponse_loop_step:
  assumes "ReadLine r = (Inr (spec_StatusCode c @ sep # t), r1)" "c < 1000"
  shows "readResponse_loop expected reply r =
     (if sep = CHR '' '' then
        (if int c \<noteq> expected then ((int c, reply @ t, Some errCodeNotMatch), r1)
         else ((int c, reply @ t, None), r1))
      else if sep = CHR ''-'' then
        (if int c \<noteq> expected then ((int c, reply @ t, Some errCodeNotMatch), r1)
         else readResponse_loop expected (reply @ t @ [LF]) r1)
      else if sep = CHR ''+'' then
        (case ReadDotLines r1 of
           ((resp, Some err), r2) \<Rightarrow> ((int c, reply @ t, Some err), r2)
         | ((resp, None), r2) \<Rightarrow>
             (if int c \<noteq> expected
              then ((int c, reply @ t @ Join resp '','', Some errCodeNotMatch), r2)
              else readResponse_loop expected (reply @ t @ Join resp '','' @ [LF]) r2))
      else ((int c, reply, Some (ProtocolError (''invalid line: '' @ spec_StatusCode c @ sep # t))), r1))"
proof -
  have l3: "length (spec_StatusCode c) = 3" by (rule StatusCode_length)
  have tk: "take 3 (spec_StatusCode c @ sep # t) = spec_StatusCode c" using l3 by simp
  have nth: "(spec_StatusCode c @ sep # t) ! 3 = sep" using l3 by (simp add: nth_append)
  have dr: "drop 4 (spec_StatusCode c @ sep # t) = t" using l3 by simp
  have len: "\<not> length (spec_StatusCode c @ sep # t) < 4" using l3 by simp
  show ?thesis
    by (subst readResponse_loop.simps)
      (simp only: assms(1) prod.case sum.case len if_False tk Atoi_StatusCode[OF assms(2)]
         option.case nth dr Let_def append_assoc)
qed


lemma Join_snoc: "Join (xs @ [y]) sep = concat (map (\<lambda>x. x @ sep) xs) @ y"
proof (induction xs)
  case Nil
  then show ?case by simp
next
  case (Cons x xs)
  then show ?case by (cases xs) simp_all
qed

lemma takeWhile_LF_append:
  "LF \<in> set buf \<Longrightarrow> takeWhile (\<lambda>x. x \<noteq> LF) (buf @ ys) = takeWhile (\<lambda>x. x \<noteq> LF) buf"
  by (induction buf) auto

lemma takeWhile_LF_length: "LF \<in> set buf \<Longrightarrow> length (takeWhile (\<lambda>x. x \<noteq> LF) buf) < length buf"
  by (induction buf) auto

lemma Reader_eq: "(r :: Reader) = \<lparr>buffered = buffered r, incoming = incoming r\<rparr>"
  by (cases r) simp

lemma fetches_stream: "fetches r consumed r' \<Longrightarrow> stream r = consumed @ stream r'"
proof -
  assume "fetches r consumed r'"
  then obtain k where k: "incoming r' = drop k (incoming r)"
    "buffered r @ concat (take k (incoming r)) = consumed @ buffered r'"
    unfolding fetches_def by blast
  have "stream r = buffered r @ concat (take k (incoming r) @ drop k (incoming r))"
    by (simp add: stream_def)
  also have "\<dots> = (buffered r @ concat (take k (incoming r))) @ concat (drop k (incoming r))"
    by (simp only: concat_append append_assoc)
  also have "\<dots> = consumed @ stream r'"
    by (simp only: k stream_def append_assoc)
  finally show ?thesis .
qed

lemma concat_take_mono: "j \<le> k \<Longrightarrow> length (concat (take j xs)) \<le> length (concat (take k xs))"
proof -
  assume "j \<le> k"
  then have "take k xs = take j xs @ take (k - j) (drop j xs)"
    by (metis le_add_diff_inverse take_add)
  then show ?thesis by simp
qed

lemma fetches_trans:
  assumes "fetches r c1 r1" "fetches r1 c2 r2"
  shows "fetches r (c1 @ c2) r2"
proof -
  from assms(1) obtain k1 where k1: "incoming r1 = drop k1 (incoming r)"
    "buffered r @ concat (take k1 (incoming r)) = c1 @ buffered r1"
    "k1 = 0 \<or> length (buffered r @ concat (take (k1 - 1) (incoming r))) < length c1"
    unfolding fetches_def by blast
  from assms(2) obtain k2 where k2: "incoming r2 = drop k2 (incoming r1)"
    "buffered r1 @ concat (take k2 (incoming r1)) = c2 @ buffered r2"
    "k2 = 0 \<or> length (buffered r1 @ concat (take (k2 - 1) (incoming r1))) < length c2"
    unfolding fetches_def by blast
  have split: "buffered r @ concat (take (k1 + j) (incoming r))
      = c1 @ buffered r1 @ concat (take j (incoming r1))" for j
  proof -
    have "buffered r @ concat (take (k1 + j) (incoming r))
        = (buffered r @ concat (take k1 (incoming r))) @ concat (take j (drop k1 (incoming r)))"
      by (simp add: take_add)
    then show ?thesis by (simp only: k1(1,2) append_assoc)
  qed
  have a: "incoming r2 = drop (k1 + k2) (incoming r)"
    using k1(1) k2(1) by (simp add: add.commute)
  have b: "buffered r @ concat (take (k1 + k2) (incoming r)) = (c1 @ c2) @ buffered r2"
    using split[of k2] k2(2) by simp
  have c: "k1 + k2 = 0 \<or>
      length (buffered r @ concat (take (k1 + k2 - 1) (incoming r))) < length (c1 @ c2)"
  proof (cases "k2 = 0")
    case True
    then show ?thesis using k1(3) by auto
  next
    case False
    then have "k1 + k2 - 1 = k1 + (k2 - 1)" by simp
    then have "length (buffered r @ concat (take (k1 + k2 - 1) (incoming r)))
        = length c1 + length (buffered r1 @ concat (take (k2 - 1) (incoming r1)))"
      using split[of "k2 - 1"] by simp
    then show ?thesis using k2(3) False by simp
  qed
  from a b c show ?thesis unfolding fetches_def by blast
qed

lemma takeWhile_LF_split:
  "LF \<in> set buf \<Longrightarrow>
   buf = (takeWhile (\<lambda>x. x \<noteq> LF) buf @ [LF]) @ drop (Suc (length (takeWhile (\<lambda>x. x \<noteq> LF) buf))) buf"
  by (induction buf) auto

lemma readLineSlice_fetches:
  assumes "LF \<in> set (buf @ concat net)"
  shows "\<exists>r'. readLineSlice buf net =
           (Inr (let l = takeWhile (\<lambda>x. x \<noteq> LF) (buf @ concat net)
                 in if l \<noteq> [] \<and> last l = CR then butlast l else l), r') \<and>
         fetches \<lparr>buffered = buf, incoming = net\<rparr>
           (takeWhile (\<lambda>x. x \<noteq> LF) (buf @ concat net) @ [LF]) r'"
  using assms
proof (induction net arbitrary: buf)
  case Nil
  then have lf: "LF \<in> set buf" by simp
  show ?case
    using lf takeWhile_LF_split[OF lf]
    by (simp add: takeLine_def fetches_def Let_def)
next
  case (Cons chunk net)
  show ?case
  proof (cases "LF \<in> set buf")
    case True
    have tw: "takeWhile (\<lambda>x. x \<noteq> LF) (buf @ concat (chunk # net)) = takeWhile (\<lambda>x. x \<noteq> LF) buf"
      by (rule takeWhile_LF_append[OF True])
    have "fetches \<lparr>buffered = buf, incoming = chunk # net\<rparr> (takeWhile (\<lambda>x. x \<noteq> LF) buf @ [LF])
       \<lparr>buffered = drop (Suc (length (takeWhile (\<lambda>x. x \<noteq> LF) buf))) buf, incoming = chunk # net\<rparr>"
      unfolding fetches_def
      using takeWhile_LF_split[OF True] by (intro exI[of _ 0]) simp
    then show ?thesis
      using True unfolding tw
      by (simp add: takeLine_def Let_def)
  next
    case False
    let ?line = "takeWhile (\<lambda>x. x \<noteq> LF) ((buf @ chunk) @ concat net)"
    from Cons.prems have "LF \<in> set ((buf @ chunk) @ concat net)" by simp
    from Cons.IH[OF this] obtain r' where
      r: "readLineSlice (buf @ chunk) net =
           (Inr (if ?line \<noteq> [] \<and> last ?line = CR then butlast ?line else ?line), r')"
      and f: "fetches \<lparr>buffered = buf @ chunk, incoming = net\<rparr> (?line @ [LF]) r'"
      by (auto simp: Let_def)
    from f obtain k where k: "incoming r' = drop k net"
      "(buf @ chunk) @ concat (take k net) = (?line @ [LF]) @ buffered r'"
      "k = 0 \<or> length ((buf @ chunk) @ concat (take (k - 1) net)) < length (?line @ [LF])"
      unfolding fetches_def by auto
    have tw: "takeWhile (\<lambda>x. x \<noteq> LF) (buf @ xs) = buf @ takeWhile (\<lambda>x. x \<noteq> LF) xs" for xs
      using False by (induction buf) auto
    have short: "length buf < length (?line @ [LF])"
      by (simp add: tw)
    have a: "incoming r' = drop (Suc k) (chunk # net)" using k(1) by simp
    have b: "buf @ concat (take (Suc k) (chunk # net)) = (?line @ [LF]) @ buffered r'"
      using k(2) by simp
    have c: "length (buf @ concat (take (Suc k - 1) (chunk # net))) < length (?line @ [LF])"
    proof (cases k)
      case 0
      then show ?thesis using short by simp
    next
      case (Suc j)
      then show ?thesis using k(3) by simp
    qed
    have "fetches \<lparr>buffered = buf, incoming = chunk # net\<rparr> (?line @ [LF]) r'"
      unfolding fetches_def using a b c by (intro exI[of _ "Suc k"]) simp
    then show ?thesis
      using False r by (intro exI[of _ r']) (simp add: Let_def)
  qed
qed

lemma ReadLine_fetches:
  assumes "stream r = t @ CR # LF # rest" "LF \<notin> set t"
  shows "\<exists>r'. ReadLine r = (Inr t, r') \<and> fetches r (t @ [CR, LF]) r' \<and> stream r' = rest"
proof -
  have s: "buffered r @ concat (incoming r) = t @ CR # LF # rest"
    using assms(1) by (simp add: stream_def)
  then have "LF \<in> set (buffered r @ concat (incoming r))" by simp
  from readLineSlice_fetches[OF this] obtain r' where
    r: "readLineSlice (buffered r) (incoming r) =
           (Inr (let l = takeWhile (\<lambda>x. x \<noteq> LF) (buffered r @ concat (incoming r))
                 in if l \<noteq> [] \<and> last l = CR then butlast l else l), r')"
       "fetches \<lparr>buffered = buffered r, incoming = incoming r\<rparr>
           (takeWhile (\<lambda>x. x \<noteq> LF) (buffered r @ concat (incoming r)) @ [LF]) r'"
    by blast
  have tw: "takeWhile (\<lambda>x. x \<noteq> LF) (t @ CR # LF # rest) = t @ [CR]"
    using assms(2) by (induction t) auto
  have f: "fetches r (t @ [CR, LF]) r'"
    using r(2) unfolding s tw by (simp add: Reader_eq[symmetric])
  from fetches_stream[OF f] assms(1) have "stream r' = rest" by simp
  with f show ?thesis
    using r(1) unfolding s tw ReadLine_def
    by (intro exI[of _ r']) (simp add: Let_def)
qed

lemma ReadDotLines_loop_fetches:
  "list_all (\<lambda>d. LF \<notin> set d) ds \<Longrightarrow> stream r = spec_CmdData ds @ rest \<Longrightarrow>
   \<exists>r'. ReadDotLines_loop v r = ((v @ ds, None), r') \<and> fetches r (spec_CmdData ds) r' \<and>
        stream r' = rest"
proof (induction ds arbitrary: v r)
  case Nil
  then have "stream r = [CHR ''.''] @ CR # LF # rest" by (simp add: spec_CmdData_def)
  from ReadLine_fetches[OF this] obtain r' where
    rl: "ReadLine r = (Inr [CHR ''.''], r')" and rt: "fetches r ([CHR ''.''] @ [CR, LF]) r'"
    and s: "stream r' = rest" by auto
  have "ReadDotLines_loop v r = ((v, None), r')"
    by (subst ReadDotLines_loop_step[OF rl]) simp
  with rt s show ?case by (auto simp: spec_CmdData_def)
next
  case (Cons d ds)
  from Cons.prems have d: "LF \<notin> set d" and ds: "list_all (\<lambda>d. LF \<notin> set d) ds" by simp_all
  let ?stuffed = "if d \<noteq> [] \<and> hd d = CHR ''.'' then CHR ''.'' # d else d"
  have nl: "LF \<notin> set ?stuffed" using d by simp
  have "stream r = ?stuffed @ CR # LF # (spec_CmdData ds @ rest)"
    using Cons.prems(2) by (simp only: CmdData_Cons)
  from ReadLine_fetches[OF this nl] obtain r1 where
    rl: "ReadLine r = (Inr ?stuffed, r1)" and rt: "fetches r (?stuffed @ [CR, LF]) r1"
    and s1: "stream r1 = spec_CmdData ds @ rest"
    by blast
  from Cons.IH[OF ds s1, of "v @ [d]"] obtain r' where
    ih: "ReadDotLines_loop (v @ [d]) r1 = ((v @ d # ds, None), r')"
    and rt': "fetches r1 (spec_CmdData ds) r'" and s': "stream r' = rest"
    by auto
  have "ReadDotLines_loop v r = ReadDotLines_loop (v @ [d]) r1"
  proof (cases "d \<noteq> [] \<and> hd d = CHR ''.''")
    case True
    with rl have rl1: "ReadLine r = (Inr (CHR ''.'' # d), r1)" by simp
    show ?thesis using True by (subst ReadDotLines_loop_step[OF rl1]) simp
  next
    case False
    with rl have rl2: "ReadLine r = (Inr d, r1)" by simp
    show ?thesis using False by (subst ReadDotLines_loop_step[OF rl2]) auto
  qed
  moreover have "(?stuffed @ [CR, LF]) @ spec_CmdData ds = spec_CmdData (d # ds)"
    using CmdData_Cons[of d ds "[]"] by simp
  ultimately show ?case
    using ih fetches_trans[OF rt rt'] s' by auto
qed

lemma readResponse_loop_line_fetches:
  assumes "spec_wellFormedLine l" "stream r = spec_wire l @ rest"
  shows "\<exists>r'. fetches r (spec_wire l) r' \<and> stream r' = rest \<and>
     readResponse_loop expected reply r =
     (if int (spec_code l) \<noteq> expected
      then ((int (spec_code l), reply @ spec_text l, Some errCodeNotMatch), r')
      else if spec_isEnd l
      then ((int (spec_code l), reply @ spec_text l, None), r')
      else readResponse_loop expected (reply @ spec_text l @ [LF]) r')"
proof (cases l)
  case (MidReplyLine c t)
  with assms have wf: "c < 1000" "LF \<notin> set t" by simp_all
  have nl: "LF \<notin> set (spec_StatusCode c @ CHR ''-'' # t)"
    using wf StatusCode_no_LF[of c] by simp
  have "stream r = (spec_StatusCode c @ CHR ''-'' # t) @ CR # LF # rest"
    using assms(2) by (simp add: MidReplyLine)
  from ReadLine_fetches[OF this nl] obtain r' where
    rl: "ReadLine r = (Inr (spec_StatusCode c @ CHR ''-'' # t), r')"
    and rt: "fetches r ((spec_StatusCode c @ CHR ''-'' # t) @ [CR, LF]) r'"
    and s: "stream r' = rest"
    by blast
  show ?thesis
    using rt s
    by (intro exI[of _ r']) (simp add: readResponse_loop_step[OF rl wf(1)] MidReplyLine)
next
  case (DataReplyLine c t ds)
  with assms have wf: "c < 1000" "LF \<notin> set t" and ds: "list_all (\<lambda>d. LF \<notin> set d) ds"
    by simp_all
  have nl: "LF \<notin> set (spec_StatusCode c @ CHR ''+'' # t)"
    using wf StatusCode_no_LF[of c] by simp
  have "stream r = (spec_StatusCode c @ CHR ''+'' # t) @ CR # LF # (spec_CmdData ds @ rest)"
    using assms(2) by (simp add: DataReplyLine)
  from ReadLine_fetches[OF this nl] obtain r1 where
    rl: "ReadLine r = (Inr (spec_StatusCode c @ CHR ''+'' # t), r1)"
    and rt: "fetches r ((spec_StatusCode c @ CHR ''+'' # t) @ [CR, LF]) r1"
    and s1: "stream r1 = spec_CmdData ds @ rest"
    by blast
  from ReadDotLines_loop_fetches[OF ds s1, of "[]"] obtain r' where
    dl: "ReadDotLines r1 = ((ds, None), r')" and rt': "fetches r1 (spec_CmdData ds) r'"
    and s': "stream r' = rest"
    by (auto simp: ReadDotLines_def)
  have "((spec_StatusCode c @ CHR ''+'' # t) @ [CR, LF]) @ spec_CmdData ds = spec_wire l"
    by (simp add: DataReplyLine)
  with fetches_trans[OF rt rt'] have "fetches r (spec_wire l) r'" by simp
  then show ?thesis
    using s'
    by (intro exI[of _ r']) (simp add: readResponse_loop_step[OF rl wf(1)] DataReplyLine dl)
next
  case (EndReplyLine c t)
  with assms have wf: "c < 1000" "LF \<notin> set t" by simp_all
  have nl: "LF \<notin> set (spec_StatusCode c @ CHR '' '' # t)"
    using wf StatusCode_no_LF[of c] by simp
  have "stream r = (spec_StatusCode c @ CHR '' '' # t) @ CR # LF # rest"
    using assms(2) by (simp add: EndReplyLine)
  from ReadLine_fetches[OF this nl] obtain r' where
    rl: "ReadLine r = (Inr (spec_StatusCode c @ CHR '' '' # t), r')"
    and rt: "fetches r ((spec_StatusCode c @ CHR '' '' # t) @ [CR, LF]) r'"
    and s: "stream r' = rest"
    by blast
  show ?thesis
    using rt s
    by (intro exI[of _ r']) (simp add: readResponse_loop_step[OF rl wf(1)] EndReplyLine)
qed

lemma readResponse_loop_reply_fetches:
  assumes "list_all (spec_continues expected) pre" "spec_finishes expected l"
  shows "stream r = concat (map spec_wire pre) @ spec_wire l @ rest \<Longrightarrow>
     \<exists>r'. fetches r (concat (map spec_wire pre) @ spec_wire l) r' \<and>
       readResponse_loop expected reply r
       = ((int (spec_code l),
           reply @ concat (map (\<lambda>x. spec_text x @ [LF]) pre) @ spec_text l,
           if int (spec_code l) = expected then None else Some errCodeNotMatch), r')"
  using assms(1)
proof (induction pre arbitrary: reply r)
  case Nil
  then have s: "stream r = spec_wire l @ rest" by simp
  from assms(2) have wf: "spec_wellFormedLine l" by (simp add: spec_finishes_def)
  from readResponse_loop_line_fetches[OF wf s, of expected reply] assms(2)
  show ?case by (auto simp: spec_finishes_def)
next
  case (Cons p pre)
  from Cons.prems have pc: "spec_continues expected p"
    and pre: "list_all (spec_continues expected) pre" by simp_all
  from pc have p: "spec_wellFormedLine p" "\<not> spec_isEnd p" "int (spec_code p) = expected"
    by (simp_all add: spec_continues_def)
  have s: "stream r = spec_wire p @ (concat (map spec_wire pre) @ spec_wire l @ rest)"
    using Cons.prems(1) by simp
  from readResponse_loop_line_fetches[OF p(1) s, of expected reply] p obtain r1 where
    rt: "fetches r (spec_wire p) r1"
    and s1: "stream r1 = concat (map spec_wire pre) @ spec_wire l @ rest"
    and st: "readResponse_loop expected reply r
        = readResponse_loop expected (reply @ spec_text p @ [LF]) r1"
    by auto
  from Cons.IH[OF s1 pre, of "reply @ spec_text p @ [LF]"] obtain r' where
    rt': "fetches r1 (concat (map spec_wire pre) @ spec_wire l) r'"
    and ih: "readResponse_loop expected (reply @ spec_text p @ [LF]) r1
       = ((int (spec_code l),
           (reply @ spec_text p @ [LF]) @ concat (map (\<lambda>x. spec_text x @ [LF]) pre) @ spec_text l,
           if int (spec_code l) = expected then None else Some errCodeNotMatch), r')"
    by blast
  show ?case
    using fetches_trans[OF rt rt'] st ih by (intro exI[of _ r']) simp
qed

text \<open>
  The portions fetched for given bytes are determined by the bytes: when the portions of
  the socket are \<open>fetched\<close> followed by \<open>kept\<close>, and \<open>consumed\<close> is complete with
  \<open>fetched\<close> but not before the last portion of it, then fetching for \<open>consumed\<close>
  leaves exactly \<open>kept\<close> with the socket.
\<close>

lemma fetches_split:
  assumes "fetches r consumed r'"
    and "incoming r = fetched @ kept"
    and "buffered r @ concat fetched = consumed @ later"
    and "fetched = [] \<or> length (buffered r @ concat (butlast fetched)) < length consumed"
  shows "incoming r' = kept"
proof -
  from assms(1) obtain k where k: "incoming r' = drop k (incoming r)"
    "buffered r @ concat (take k (incoming r)) = consumed @ buffered r'"
    "k = 0 \<or> length (buffered r @ concat (take (k - 1) (incoming r))) < length consumed"
    unfolding fetches_def by blast
  let ?n = "length fetched"
  let ?f = "\<lambda>j. length (buffered r @ concat (take j (incoming r)))"
  have mono: "?f i \<le> ?f j" if "i \<le> j" for i j
    using concat_take_mono[OF that, of "incoming r"] by simp
  have fk: "length consumed \<le> ?f k"
    using arg_cong[OF k(2), of length] by simp
  have "take ?n (incoming r) = fetched" using assms(2) by simp
  then have fn: "length consumed \<le> ?f ?n"
    using arg_cong[OF assms(3), of length] by simp
  have bl: "take (?n - 1) (incoming r) = butlast fetched"
    using assms(2) by (simp add: butlast_conv_take)
  have n: "?n = 0 \<or> ?f (?n - 1) < length consumed"
    using assms(4) unfolding bl by auto
  have "k = ?n"
  proof (rule ccontr)
    assume "k \<noteq> ?n"
    then consider "k < ?n" | "?n < k" by linarith
    then show False
    proof cases
      case 1
      then have "k \<le> ?n - 1" "?n \<noteq> 0" by auto
      with mono[of k "?n - 1"] n fk show False by simp
    next
      case 2
      then have "?n \<le> k - 1" "k \<noteq> 0" by auto
      with mono[of ?n "k - 1"] k(3) fn show False by simp
    qed
  qed
  with k(1) assms(2) show ?thesis by simp
qed

text \<open>Every arrival of bytes that begin with \<open>consumed\<close> has such a split.\<close>

lemma fetched_kept_exist:
  "buf @ concat net = consumed @ rest \<Longrightarrow>
   \<exists>fetched kept later. net = fetched @ kept \<and> buf @ concat fetched = consumed @ later \<and>
     (fetched = [] \<or> length (buf @ concat (butlast fetched)) < length consumed)"
proof (induction net arbitrary: buf)
  case Nil
  then show ?case by simp
next
  case (Cons chunk net)
  show ?case
  proof (cases "length consumed \<le> length buf")
    case True
    from Cons.prems have "take (length consumed) (buf @ concat (chunk # net)) = consumed"
      by simp
    with True have "take (length consumed) buf = consumed" by simp
    then have "buf = consumed @ drop (length consumed) buf"
      by (metis append_take_drop_id)
    then show ?thesis
      by (intro exI[of _ "[]"] exI[of _ "chunk # net"] exI[of _ "drop (length consumed) buf"])
        simp
  next
    case False
    from Cons.prems have "(buf @ chunk) @ concat net = consumed @ rest" by simp
    from Cons.IH[OF this] obtain fetched kept later where
      ih: "net = fetched @ kept" "(buf @ chunk) @ concat fetched = consumed @ later"
        "fetched = [] \<or> length ((buf @ chunk) @ concat (butlast fetched)) < length consumed"
      by blast
    have "length (buf @ concat (butlast (chunk # fetched))) < length consumed"
      using ih(3) False by (cases "fetched = []") simp_all
    then show ?thesis
      using ih(1,2)
      by (intro exI[of _ "chunk # fetched"] exI[of _ kept] exI[of _ later]) simp
  qed
qed

lemma readResponse_reply_fetches:
  assumes "list_all (spec_continues expected) pre" "spec_finishes expected l"
    and "incoming r = fetched @ kept"
    and "buffered r @ concat fetched = concat (map spec_wire pre) @ spec_wire l @ later"
    and "fetched = [] \<or>
         length (buffered r @ concat (butlast fetched))
           < length (concat (map spec_wire pre) @ spec_wire l)"
  shows "readResponse expected r
     = ((int (spec_code l), Join (map spec_text (pre @ [l])) [LF],
         if int (spec_code l) = expected then None else Some errCodeNotMatch),
        \<lparr>buffered = [], incoming = kept\<rparr>)"
proof -
  have "stream r = (buffered r @ concat fetched) @ concat kept"
    using assms(3) by (simp add: stream_def)
  then have "stream r = concat (map spec_wire pre) @ spec_wire l @ (later @ concat kept)"
    by (simp only: assms(4) append_assoc)
  from readResponse_loop_reply_fetches[OF assms(1,2) this, of "[]"] obtain r' where
    f: "fetches r (concat (map spec_wire pre) @ spec_wire l) r'"
    and lp: "readResponse_loop expected [] r
       = ((int (spec_code l), concat (map (\<lambda>x. spec_text x @ [LF]) pre) @ spec_text l,
           if int (spec_code l) = expected then None else Some errCodeNotMatch), r')"
    by auto
  have "buffered r @ concat fetched = (concat (map spec_wire pre) @ spec_wire l) @ later"
    using assms(4) by simp
  from fetches_split[OF f assms(3) this assms(5)] have "incoming r' = kept" .
  then have "r'\<lparr>buffered := []\<rparr> = \<lparr>buffered = [], incoming = kept\<rparr>" by simp
  then show ?thesis
    unfolding readResponse_def lp by (simp add: Join_snoc comp_def)
qed

lemma readResponse_reply_stream:
  assumes "list_all (spec_continues expected) pre" "spec_finishes expected l"
    and "buffered r @ concat (incoming r) = concat (map spec_wire pre) @ spec_wire l @ rest"
  shows "\<exists>k. readResponse expected r
     = ((int (spec_code l), Join (map spec_text (pre @ [l])) [LF],
         if int (spec_code l) = expected then None else Some errCodeNotMatch),
        \<lparr>buffered = [], incoming = drop k (incoming r)\<rparr>)"
proof -
  have "buffered r @ concat (incoming r) = (concat (map spec_wire pre) @ spec_wire l) @ rest"
    using assms(3) by simp
  from fetched_kept_exist[OF this] obtain fetched kept later where
    sp: "incoming r = fetched @ kept"
      "buffered r @ concat fetched = (concat (map spec_wire pre) @ spec_wire l) @ later"
      "fetched = [] \<or> length (buffered r @ concat (butlast fetched))
         < length (concat (map spec_wire pre) @ spec_wire l)"
    by blast
  from sp(2) have
    "buffered r @ concat fetched = concat (map spec_wire pre) @ spec_wire l @ later" by simp
  from readResponse_reply_fetches[OF assms(1,2) sp(1) this sp(3)]
  show ?thesis using sp(1) by (intro exI[of _ "length fetched"]) simp
qed

text \<open>
  C6. \<open>readResponse\<close> collapses a data reply line into its header text followed by its
  dot-terminated data lines joined with commas, and joins the texts of the successive
  lines of a reply with a line feed: when the bytes the connection produces, in whatever
  portions, begin with a reply whose lines all carry the expected code, it returns that
  code, the joined text and no error.
\<close>

theorem readResponse_collapses_and_joins:
  assumes "list_all (spec_continues expected) pre"
    and "spec_wellFormedLine (EndReplyLine c t)" and "int c = expected"
    and "buffered r @ concat (incoming r)
           = concat (map spec_wire (pre @ [EndReplyLine c t])) @ rest"
  shows "fst (readResponse expected r)
     = (expected, Join (map spec_text (pre @ [EndReplyLine c t])) [LF], None)"
proof -
  have f: "spec_finishes expected (EndReplyLine c t)"
    using assms(2) by (simp add: spec_finishes_def)
  have "buffered r @ concat (incoming r)
      = concat (map spec_wire pre) @ spec_wire (EndReplyLine c t) @ rest"
    using assms(4) by simp
  from readResponse_reply_stream[OF assms(1) f this] show ?thesis
    using assms(3) by auto
qed

theorem readResponse_collapses_and_joins_witness:
  "list_all (spec_continues 250) [DataReplyLine 250 ''config-text='' [''alpha'', ''beta'']] \<and>
   spec_wellFormedLine (EndReplyLine 250 ''OK'') \<and>
   concat (map spec_wire [DataReplyLine 250 ''config-text='' [''alpha'', ''beta''],
                           EndReplyLine 250 ''OK''])
     = ''250+config-text='' @ [CR, LF] @ ''alpha'' @ [CR, LF] @ ''beta'' @ [CR, LF] @
       ''.'' @ [CR, LF] @ ''250 OK'' @ [CR, LF] \<and>
   fst (readResponse 250
     \<lparr>buffered = ''250+config-text='' @ [CR, LF] @ ''alpha'' @ [CR, LF] @ ''beta'' @ [CR, LF] @
                 ''.'' @ [CR, LF] @ ''250 OK'' @ [CR, LF],
      incoming = []\<rparr>)
     = (250, ''config-text=alpha,beta'' @ [LF] @ ''OK'', None) \<and>
   fst (readResponse 250
     \<lparr>buffered = [],
      incoming = [''250+config-text='' @ [CR, LF], ''alpha'' @ [CR, LF], ''beta'' @ [CR, LF],
                  ''.'' @ [CR, LF], ''250 OK'' @ [CR, LF]]\<rparr>)
     = (250, ''config-text=alpha,beta'' @ [LF] @ ''OK'', None)"
  using readResponse_collapses_and_joins[of 250
      "[DataReplyLine 250 ''config-text='' [''alpha'', ''beta'']]" 250 "''OK''"
      "\<lparr>buffered = ''250+config-text='' @ [CR, LF] @ ''alpha'' @ [CR, LF] @ ''beta'' @ [CR, LF] @
                 ''.'' @ [CR, LF] @ ''250 OK'' @ [CR, LF],
        incoming = []\<rparr>" "[]"]
    readResponse_collapses_and_joins[of 250
      "[DataReplyLine 250 ''config-text='' [''alpha'', ''beta'']]" 250 "''OK''"
      "\<lparr>buffered = [],
        incoming = [''250+config-text='' @ [CR, LF], ''alpha'' @ [CR, LF], ''beta'' @ [CR, LF],
                  ''.'' @ [CR, LF], ''250 OK'' @ [CR, LF]]\<rparr>" "[]"]
  by (simp add: spec_continues_def spec_StatusCode_def spec_CmdData_def)

text \<open>
  C3, as amended. Let the portions the socket delivers be \<open>fetched\<close> followed by \<open>kept\<close>,
  where the buffer and \<open>fetched\<close> hold the lines of a reply up to the first line whose
  status code differs from the expected one, followed by \<open>later\<close>, and those lines are
  not complete before the last portion of \<open>fetched\<close> (every arrival of such lines has
  exactly one such split, by \<open>fetched_kept_exist\<close> and \<open>fetches_split\<close>). Then
  \<open>readResponse\<close> returns that code, the reply text accumulated up to and including
  that line, and \<open>errCodeNotMatch\<close>, whether the line is a mid, a data or an end line;
  it leaves the buffer empty, so the bytes \<open>later\<close> that were in the buffer behind that
  line are discarded, and it leaves exactly the portions \<open>kept\<close> with the socket: bytes
  not yet delivered are not discarded. The next call reads them: when they begin with
  a reply, it returns that reply.
\<close>

theorem readResponse_unexpected_code_drains_buffer:
  assumes "list_all (spec_continues expected) pre"
    and "spec_wellFormedLine l" and "int (spec_code l) \<noteq> expected"
    and "incoming r = fetched @ kept"
    and "buffered r @ concat fetched = concat (map spec_wire pre) @ spec_wire l @ later"
    and "fetched = [] \<or>
         length (buffered r @ concat (butlast fetched))
           < length (concat (map spec_wire pre) @ spec_wire l)"
  shows "readResponse expected r
       = ((int (spec_code l), Join (map spec_text (pre @ [l])) [LF], Some errCodeNotMatch),
          \<lparr>buffered = [], incoming = kept\<rparr>) \<and>
     (\<forall>expected' pre' l' rest'.
        list_all (spec_continues expected') pre' \<and> spec_finishes expected' l' \<and>
        concat kept = concat (map spec_wire pre') @ spec_wire l' @ rest' \<longrightarrow>
        fst (readResponse expected' (snd (readResponse expected r)))
          = (int (spec_code l'), Join (map spec_text (pre' @ [l'])) [LF],
             if int (spec_code l') = expected' then None else Some errCodeNotMatch))"
proof -
  have f: "spec_finishes expected l"
    using assms(2,3) by (simp add: spec_finishes_def)
  have a: "readResponse expected r
       = ((int (spec_code l), Join (map spec_text (pre @ [l])) [LF], Some errCodeNotMatch),
          \<lparr>buffered = [], incoming = kept\<rparr>)"
    using readResponse_reply_fetches[OF assms(1) f assms(4,5,6)] assms(3) by simp
  have b: "fst (readResponse expected' (snd (readResponse expected r)))
          = (int (spec_code l'), Join (map spec_text (pre' @ [l'])) [LF],
             if int (spec_code l') = expected' then None else Some errCodeNotMatch)"
    if "list_all (spec_continues expected') pre'" "spec_finishes expected' l'"
      "concat kept = concat (map spec_wire pre') @ spec_wire l' @ rest'"
    for expected' pre' l' rest'
  proof -
    have "buffered \<lparr>buffered = [], incoming = kept\<rparr> @ concat (incoming \<lparr>buffered = [], incoming = kept\<rparr>)
        = concat (map spec_wire pre') @ spec_wire l' @ rest'"
      using that(3) by simp
    from readResponse_reply_stream[OF that(1,2) this] show ?thesis
      unfolding a by auto
  qed
  from a b show ?thesis by blast
qed

theorem readResponse_unexpected_code_drains_buffer_witness:
  "list_all (spec_continues 250) [] \<and>
   spec_wellFormedLine (EndReplyLine 515 ''Authentication required.'') \<and> (515 :: int) \<noteq> 250 \<and>
   ''515 Authe'' @ concat [''ntication required.'' @ [CR, LF] @ ''250-extra'' @ [CR, LF]]
     = concat (map spec_wire []) @ spec_wire (EndReplyLine 515 ''Authentication required.'') @
       ''250-extra'' @ [CR, LF] \<and>
   length (''515 Authe'' @
       concat (butlast [''ntication required.'' @ [CR, LF] @ ''250-extra'' @ [CR, LF]]))
     < length (concat (map spec_wire []) @ spec_wire (EndReplyLine 515 ''Authentication required.'')) \<and>
   readResponse 250
     \<lparr>buffered = ''515 Authe'',
      incoming = [''ntication required.'' @ [CR, LF] @ ''250-extra'' @ [CR, LF],
                  ''250 OK'' @ [CR, LF]]\<rparr>
     = ((515, ''Authentication required.'', Some errCodeNotMatch),
        \<lparr>buffered = [], incoming = [''250 OK'' @ [CR, LF]]\<rparr>) \<and>
   list_all (spec_continues 250) [] \<and> spec_finishes 250 (EndReplyLine 250 ''OK'') \<and>
   concat [''250 OK'' @ [CR, LF]]
     = concat (map spec_wire []) @ spec_wire (EndReplyLine 250 ''OK'') @ [] \<and>
   fst (readResponse 250 (snd (readResponse 250
     \<lparr>buffered = ''515 Authe'',
      incoming = [''ntication required.'' @ [CR, LF] @ ''250-extra'' @ [CR, LF],
                  ''250 OK'' @ [CR, LF]]\<rparr>)))
     = (250, ''OK'', None)"
proof -
  let ?r = "\<lparr>buffered = ''515 Authe'',
      incoming = [''ntication required.'' @ [CR, LF] @ ''250-extra'' @ [CR, LF],
                  ''250 OK'' @ [CR, LF]]\<rparr>"
  have h: "list_all (spec_continues 250) []"
    "spec_wellFormedLine (EndReplyLine 515 ''Authentication required.'')" "(515 :: int) \<noteq> 250"
    "''515 Authe'' @ concat [''ntication required.'' @ [CR, LF] @ ''250-extra'' @ [CR, LF]]
     = concat (map spec_wire []) @ spec_wire (EndReplyLine 515 ''Authentication required.'') @
       ''250-extra'' @ [CR, LF]"
    "length (''515 Authe'' @
       concat (butlast [''ntication required.'' @ [CR, LF] @ ''250-extra'' @ [CR, LF]]))
     < length (concat (map spec_wire []) @ spec_wire (EndReplyLine 515 ''Authentication required.''))"
    "spec_finishes 250 (EndReplyLine 250 ''OK'')"
    "concat [''250 OK'' @ [CR, LF]]
     = concat (map spec_wire []) @ spec_wire (EndReplyLine 250 ''OK'') @ []"
    by (simp_all add: spec_StatusCode_def spec_finishes_def)
  have t: "readResponse 250 ?r
       = ((515, ''Authentication required.'', Some errCodeNotMatch),
          \<lparr>buffered = [], incoming = [''250 OK'' @ [CR, LF]]\<rparr>) \<and>
     (\<forall>expected' pre' l' rest'.
        list_all (spec_continues expected') pre' \<and> spec_finishes expected' l' \<and>
        concat [''250 OK'' @ [CR, LF]] = concat (map spec_wire pre') @ spec_wire l' @ rest' \<longrightarrow>
        fst (readResponse expected' (snd (readResponse 250 ?r)))
          = (int (spec_code l'), Join (map spec_text (pre' @ [l'])) [LF],
             if int (spec_code l') = expected' then None else Some errCodeNotMatch))"
    using readResponse_unexpected_code_drains_buffer[of 250 "[]"
        "EndReplyLine 515 ''Authentication required.''" ?r
        "[''ntication required.'' @ [CR, LF] @ ''250-extra'' @ [CR, LF]]"
        "[''250 OK'' @ [CR, LF]]" "''250-extra'' @ [CR, LF]"] h(1-5)
    by simp
  from t[THEN conjunct2, rule_format, of 250 "[]" "EndReplyLine 250 ''OK''" "[]"] h(1,6,7)
  have n: "fst (readResponse 250 (snd (readResponse 250 ?r))) = (250, ''OK'', None)"
    by simp
  from t[THEN conjunct1] n h show ?thesis by simp
qed

text \<open>
  C3 as stated fails: only buffered bytes are discarded. When the two lines of the
  example arrive in two socket reads, the failed read returns before the second line is
  in the buffer, and the next read parses \<open>250 OK\<close>; likewise the end line of a reply
  whose mid line already carried the unexpected code is read as the next reply.
\<close>

theorem readResponse_later_lines_counterexample:
  "readResponse 250
     \<lparr>buffered = [],
      incoming = [''515 Authentication required.'' @ [CR, LF], ''250 OK'' @ [CR, LF]]\<rparr>
     = ((515, ''Authentication required.'', Some errCodeNotMatch),
        \<lparr>buffered = [], incoming = [''250 OK'' @ [CR, LF]]\<rparr>) \<and>
   readResponse 250 \<lparr>buffered = [], incoming = [''250 OK'' @ [CR, LF]]\<rparr>
     = ((250, ''OK'', None), \<lparr>buffered = [], incoming = []\<rparr>) \<and>
   readResponse 250
     \<lparr>buffered = [],
      incoming = [''515-Authentication required.'' @ [CR, LF], ''515 Bad authentication'' @ [CR, LF]]\<rparr>
     = ((515, ''Authentication required.'', Some errCodeNotMatch),
        \<lparr>buffered = [], incoming = [''515 Bad authentication'' @ [CR, LF]]\<rparr>) \<and>
   readResponse 250 \<lparr>buffered = [], incoming = [''515 Bad authentication'' @ [CR, LF]]\<rparr>
     = ((515, ''Bad authentication'', Some errCodeNotMatch), \<lparr>buffered = [], incoming = []\<rparr>)"
  by (simp add: readResponse_def readResponse_loop.simps ReadLine_def takeLine_def Atoi_def
      isDigit_def digitVal_def)

subsection \<open>The version gate\<close>

text \<open>
  C8. \<open>supportsV3\<close> returns an error for every version string that does not consist of
  exactly four dot-separated parts each parsing as an integer (the last part up to its
  first dash), and for a well-formed version string it returns an error exactly when
  the whole string is below \<open>0.3.3.6\<close> in the lexicographic order of its bytes.
\<close>

theorem supportsV3_refuses:
  "(\<not> spec_wellFormedVersion v \<longrightarrow> supportsV3 v \<noteq> None) \<and>
   (spec_wellFormedVersion v \<longrightarrow> (supportsV3 v \<noteq> None \<longleftrightarrow> v < ''0.3.3.6''))"
proof (cases "length (Split v (CHR ''.'')) = 4")
  case False
  then have "supportsV3 v \<noteq> None" by (simp add: supportsV3_def Let_def)
  moreover have "\<not> spec_wellFormedVersion v"
  proof
    assume "spec_wellFormedVersion v"
    then obtain a b c d where "v = a @ ''.'' @ b @ ''.'' @ c @ ''.'' @ d"
      "CHR ''.'' \<notin> set a" "CHR ''.'' \<notin> set b" "CHR ''.'' \<notin> set c" "CHR ''.'' \<notin> set d"
      unfolding spec_wellFormedVersion_def by blast
    then have "length (Split v (CHR ''.'')) = 4"
      using Split_four_eq[of "CHR ''.''" a b c d] by simp
    with False show False by simp
  qed
  ultimately show ?thesis by simp
next
  case True
  then obtain a b c d where v: "v = a @ ''.'' @ b @ ''.'' @ c @ ''.'' @ d"
    and nd: "CHR ''.'' \<notin> set a" "CHR ''.'' \<notin> set b" "CHR ''.'' \<notin> set c" "CHR ''.'' \<notin> set d"
    using Split_four[of v "CHR ''.''"] by auto
  have sp: "Split v (CHR ''.'') = [a, b, c, d]"
    unfolding v using Split_four_eq[OF nd] by simp
  have wf: "spec_wellFormedVersion v \<longleftrightarrow>
      firstAtoiError [a, b, c, takeWhile (\<lambda>x. x \<noteq> CHR ''-'') d] = None"
  proof
    assume "spec_wellFormedVersion v"
    then obtain a' b' c' d' where v': "v = a' @ ''.'' @ b' @ ''.'' @ c' @ ''.'' @ d'"
      and nd': "CHR ''.'' \<notin> set a'" "CHR ''.'' \<notin> set b'" "CHR ''.'' \<notin> set c'"
        "CHR ''.'' \<notin> set d'"
      and ints: "spec_parsesAsInteger a'" "spec_parsesAsInteger b'" "spec_parsesAsInteger c'"
        "spec_parsesAsInteger (takeWhile (\<lambda>x. x \<noteq> CHR ''-'') d')"
      unfolding spec_wellFormedVersion_def by blast
    have "Split v (CHR ''.'') = [a', b', c', d']"
      unfolding v' using Split_four_eq[OF nd'] by simp
    with sp have "a' = a" "b' = b" "c' = c" "d' = d" by auto
    with ints show "firstAtoiError [a, b, c, takeWhile (\<lambda>x. x \<noteq> CHR ''-'') d] = None"
      unfolding firstAtoiError_four Atoi_iff by simp
  next
    assume "firstAtoiError [a, b, c, takeWhile (\<lambda>x. x \<noteq> CHR ''-'') d] = None"
    then have "spec_parsesAsInteger a \<and> spec_parsesAsInteger b \<and> spec_parsesAsInteger c \<and>
        spec_parsesAsInteger (takeWhile (\<lambda>x. x \<noteq> CHR ''-'') d)"
      unfolding firstAtoiError_four Atoi_iff by simp
    then show "spec_wellFormedVersion v"
      unfolding spec_wellFormedVersion_def using v nd by blast
  qed
  have sv: "supportsV3 v = None \<longleftrightarrow>
     firstAtoiError [a, b, c, takeWhile (\<lambda>x. x \<noteq> CHR ''-'') d] = None \<and> \<not> v < ''0.3.3.6''"
    using supportsV3_parts[OF nd v] unfolding MinTorVersion_def .
  have taut: "\<And>A B C W. (A = (B \<and> \<not> C)) \<Longrightarrow> (W = B) \<Longrightarrow>
      (\<not> W \<longrightarrow> \<not> A) \<and> (W \<longrightarrow> ((\<not> A) = C))" by blast
  show ?thesis by (rule taut[OF sv wf])
qed


theorem supportsV3_refuses_witness:
  "spec_wellFormedVersion ''0.3.3.5-rc'' \<and> ''0.3.3.5-rc'' < ''0.3.3.6'' \<and>
   supportsV3 ''0.3.3.5-rc'' \<noteq> None \<and>
   spec_wellFormedVersion ''0.4.7.13'' \<and> \<not> ''0.4.7.13'' < ''0.3.3.6'' \<and>
   supportsV3 ''0.4.7.13'' = None \<and>
   \<not> spec_wellFormedVersion ''0.4.7'' \<and> supportsV3 ''0.4.7'' \<noteq> None"
proof -
  have w1: "spec_wellFormedVersion ''0.3.3.5-rc''"
    using wellFormedVersion_intro[of "''0''" "''3''" "''3''" "''5-rc''"]
    by (simp add: Atoi_def isDigit_def digitVal_def)
  have w2: "spec_wellFormedVersion ''0.4.7.13''"
    using wellFormedVersion_intro[of "''0''" "''4''" "''7''" "''13''"]
    by (simp add: Atoi_def isDigit_def digitVal_def)
  have w3: "\<not> spec_wellFormedVersion ''0.4.7''"
    using wellFormedVersion_four_parts[of "''0.4.7''"] by auto
  have l1: "''0.3.3.5-rc'' < ''0.3.3.6''" by simp
  have l2: "\<not> ''0.4.7.13'' < ''0.3.3.6''" by simp
  show ?thesis
    using supportsV3_refuses[of "''0.3.3.5-rc''"] supportsV3_refuses[of "''0.4.7.13''"]
      supportsV3_refuses[of "''0.4.7''"] w1 w2 w3 l1 l2
    by blast
qed

text \<open>
  The order is that of the strings, not of the numbers: a release whose last number has
  two digits is refused although it is numerically above the minimum, and a padded first
  part passes although the version is numerically below it.
\<close>

lemma supportsV3_not_numeric:
  "supportsV3 ''0.3.3.10'' \<noteq> None \<and> supportsV3 ''00.3.3.5'' = None"
  by (simp add: supportsV3_def Atoi_def isDigit_def digitVal_def MinTorVersion_def)

subsection \<open>Authentication methods\<close>

text \<open>
  C9. \<open>supportsAuthMethod\<close> matches by substring containment: it is true exactly when
  the reply has a \<open>METHODS\<close> key whose raw value contains the method name anywhere, so
  a value in which the name only occurs inside a longer token counts as support, and it
  is false whenever the key is absent.
\<close>

theorem supportsAuthMethod_substring:
  "(supportsAuthMethod i m \<longleftrightarrow> (\<exists>v p q. i ''METHODS'' = Some v \<and> v = p @ m @ q)) \<and>
   supportsAuthMethod (i(''METHODS'' \<mapsto> pre @ m @ post)) m \<and>
   \<not> supportsAuthMethod (i(''METHODS'' := None)) m"
  by (auto simp: supportsAuthMethod_def Contains_iff split: option.splits)

lemma supportsAuthMethod_longer_token:
  "supportsAuthMethod [''METHODS'' \<mapsto> ''COOKIE,XNULLIFY''] ''NULL'' \<and>
   \<not> supportsAuthMethod [''METHODS'' \<mapsto> ''COOKIE,HASHEDPASSWORD''] ''SAFECOOKIE'' \<and>
   \<not> supportsAuthMethod [''Tor'' \<mapsto> ''0.4.7.13''] ''NULL''"
  by (simp add: supportsAuthMethod_def)

subsection \<open>Evaluation of the examples\<close>

lemmas eval_reader = readResponse_def readResponse_loop.simps ReadDotLines_def
  ReadDotLines_loop.simps ReadLine_def takeLine_def Atoi_def isDigit_def digitVal_def
lemmas eval_parse = parseTorReply_def parseField_def matchesHere_def matchLen_def keyChar_def
  unescapeValue_def runes.simps encoderune_def char_of_def bit_Suc_0_iff
lemmas eval_conn = sendCommand_def Cmd_def Close_def success_def exampleConn_def
  exampleProtocolInfoReply_def NewController_def

lemmas eval_ctl = exampleRunning_def exampleEnv_def eval_conn eval_reader eval_parse
  protocolInfo_def authenticate_def authenticateViaNull_def authenticateViaHashedPassword_def
  supportsAuthMethod_def authHashedPassword_def authSafeCookie_def authNull_def
  protocolInfo_version_def Trim_def Start_def Stop_def Reconnect_def DelOnion_def


lemma eq_char_of_iff: "c = char_of n \<longleftrightarrow> take_bit 8 n = (of_char c :: nat)"
  using char_of_eq_iff[of n c] by auto

text \<open>
  \<open>unescapeValue\<close> at work: a backslash is dropped and the rune behind it kept;
  well-formed encodings of two, three and four bytes are copied; a byte that is not
  part of one, an overlong encoding included, becomes \<open>EF BF BD\<close>.
\<close>

lemma unescapeValue_examples:
  "unescapeValue [CHR ''a'', BACKSLASH, DQUOTE, BACKSLASH, BACKSLASH, CHR ''b'']
     = [CHR ''a'', DQUOTE, BACKSLASH, CHR ''b''] \<and>
   unescapeValue [CHR 0xC3, CHR 0xA9, CHR 0xE2, CHR 0x82, CHR 0xAC,
                  CHR 0xF0, CHR 0x9F, CHR 0x98, CHR 0x80]
     = [CHR 0xC3, CHR 0xA9, CHR 0xE2, CHR 0x82, CHR 0xAC, CHR 0xF0, CHR 0x9F, CHR 0x98, CHR 0x80] \<and>
   unescapeValue [CHR 0xFF, CHR ''a'', CHR 0xC3]
     = [CHR 0xEF, CHR 0xBF, CHR 0xBD, CHR ''a'', CHR 0xEF, CHR 0xBF, CHR 0xBD] \<and>
   unescapeValue [CHR 0xC0, CHR 0x80]
     = [CHR 0xEF, CHR 0xBF, CHR 0xBD, CHR 0xEF, CHR 0xBF, CHR 0xBD]"
  by (simp add: unescapeValue_def runes.simps encoderune_def decoderune_def isContinuation_def
      runeError_def char_of_def bit_Suc_0_iff)

subsection \<open>Hexadecimal encoding\<close>

lemma hexDigit_nibble:
  assumes "k < 16"
  shows "fromHexChar (hexDigit k) = Some k \<and> hexDigit k \<in> set ''0123456789abcdef''"
proof -
  from assms have "k = 0 \<or> k = 1 \<or> k = 2 \<or> k = 3 \<or> k = 4 \<or> k = 5 \<or> k = 6 \<or> k = 7 \<or>
      k = 8 \<or> k = 9 \<or> k = 10 \<or> k = 11 \<or> k = 12 \<or> k = 13 \<or> k = 14 \<or> k = 15" by arith
  then show ?thesis
    by (elim disjE) (simp_all add: hexDigit_def fromHexChar_def)
qed

lemma of_char_less_256: "(of_char b :: nat) < 256"
proof -
  have "(of_char b :: nat) mod 256 = of_char b" by (rule of_char_mod_256)
  then show ?thesis by (metis mod_less_divisor zero_less_numeral)
qed

lemma hexEncode_DecodeString: "DecodeString (hexEncode bs) = Inr bs"
proof (induction bs)
  case Nil
  then show ?case by simp
next
  case (Cons b bs)
  let ?n = "of_char b :: nat"
  have hi: "?n div 16 < 16"
    using of_char_less_256[of b] by (intro less_mult_imp_div_less) simp
  have lo: "?n mod 16 < 16" by simp
  have "char_of (?n div 16 * 16 + ?n mod 16) = b" by simp
  then show ?case
    using hexDigit_nibble[OF hi] hexDigit_nibble[OF lo] Cons.IH by simp
qed

lemma hexEncode_lowercase: "list_all (\<lambda>x. x \<in> set ''0123456789abcdef'') (hexEncode bs)"
proof (induction bs)
  case Nil
  then show ?case by simp
next
  case (Cons b bs)
  let ?n = "of_char b :: nat"
  have hi: "?n div 16 < 16"
    using of_char_less_256[of b] by (intro less_mult_imp_div_less) simp
  have lo: "?n mod 16 < 16" by simp
  show ?case
    using hexDigit_nibble[OF hi] hexDigit_nibble[OF lo] Cons.IH by simp
qed

subsection \<open>Commands leave the lifecycle flags alone\<close>

lemma sendCommand_fields:
  "sendCommand c cmd = (res, c') \<Longrightarrow>
     started c' = started c \<and> stopped c' = stopped c \<and> password c' = password c \<and>
     version c' = version c \<and> activeServiceID c' = activeServiceID c \<and>
     controlAddr c' = controlAddr c \<and> targetIPAddress c' = targetIPAddress c"
  by (auto simp: sendCommand_def split: option.splits prod.splits)

lemma protocolInfo_fields:
  "protocolInfo c = (res, c') \<Longrightarrow>
     started c' = started c \<and> stopped c' = stopped c \<and> password c' = password c \<and>
     version c' = version c \<and> activeServiceID c' = activeServiceID c \<and>
     controlAddr c' = controlAddr c \<and> targetIPAddress c' = targetIPAddress c"
  unfolding protocolInfo_def
  by (cases "sendCommand c ''PROTOCOLINFO 1''")
     (auto split: prod.splits option.splits dest!: sendCommand_fields)

lemma sendCommand_ok_written:
  assumes "sendCommand c cmd = ((code, reply, None), c')"
  shows "\<exists>cn cn'. conn c = Some cn \<and> conn c' = Some cn' \<and> written cn' = written cn @ [cmd]"
proof -
  from assms obtain cn where cn: "conn c = Some cn"
    by (cases "conn c") (auto simp: sendCommand_def)
  from assms cn have ok: "Cmd cn cmd = (None, cn\<lparr>written := written cn @ [cmd]\<rparr>)"
    by (auto simp: sendCommand_def Cmd_def split: if_splits option.splits prod.splits)
  from assms cn ok show ?thesis
    by (auto simp: sendCommand_def split: prod.splits)
qed

lemma getAuthCookie_ok:
  "getAuthCookie env info = Inr cookie \<Longrightarrow>
   \<exists>cookieFilePath. info ''COOKIEFILE'' = Some cookieFilePath \<and>
      readFile env (Trim cookieFilePath DQUOTE) = Inr cookie \<and> length cookie = 32"
  by (auto simp: getAuthCookie_def cookieLen_def split: option.splits sum.splits if_splits)

lemma authenticateViaSafeCookie_fields:
  "authenticateViaSafeCookie env c info = (res, c') \<Longrightarrow>
     started c' = started c \<and> stopped c' = stopped c \<and> password c' = password c \<and>
     version c' = version c \<and> activeServiceID c' = activeServiceID c \<and>
     controlAddr c' = controlAddr c \<and> targetIPAddress c' = targetIPAddress c"
  unfolding authenticateViaSafeCookie_def Let_def
  by (auto split: sum.splits option.splits prod.splits if_splits dest!: sendCommand_fields)

lemma authenticate_fields:
  "authenticate env c = (res, c') \<Longrightarrow>
     started c' = started c \<and> stopped c' = stopped c \<and> password c' = password c \<and>
     activeServiceID c' = activeServiceID c \<and>
     controlAddr c' = controlAddr c \<and> targetIPAddress c' = targetIPAddress c"
  unfolding authenticate_def Let_def authenticateViaHashedPassword_def authenticateViaNull_def
  by (auto split: sum.splits option.splits prod.splits if_splits
      dest!: sendCommand_fields protocolInfo_fields authenticateViaSafeCookie_fields)


lemma sendCommand_isClosed:
  "sendCommand c cmd = (res, c') \<Longrightarrow>
     map_option isClosed (conn c') = map_option isClosed (conn c)"
  by (auto simp: sendCommand_def Cmd_def split: option.splits prod.splits if_splits)

lemma DelOnion_fields:
  "DelOnion c serviceID = (res, c') \<Longrightarrow>
     started c' = started c \<and> stopped c' = stopped c \<and>
     activeServiceID c' = activeServiceID c \<and>
     map_option isClosed (conn c') = map_option isClosed (conn c)"
  unfolding DelOnion_def
  by (auto split: prod.splits dest: sendCommand_fields sendCommand_isClosed)

lemma DelOnion_written:
  assumes "conn c = Some cn" "\<not> isClosed cn" "writeError cn = None"
  shows "\<exists>cn'. conn (snd (DelOnion c serviceID)) = Some cn' \<and>
           written cn' = written cn @ [''DEL_ONION '' @ serviceID]"
  using assms
  by (auto simp: DelOnion_def sendCommand_def Cmd_def split: prod.splits)

lemma Stop_stopped: "stopped c \<noteq> 0 \<Longrightarrow> Stop c = (None, c)"
  by (simp add: Stop_def)

lemma Stop_sets_flag: "stopped (snd (Stop c)) \<noteq> 0"
proof (cases "stopped c = 0")
  case False
  then show ?thesis by (simp add: Stop_def)
next
  case True
  obtain e c2 where d: "DelOnion (c\<lparr>stopped := 1\<rparr>) (activeServiceID c) = (e, c2)"
    by (metis prod.exhaust)
  from DelOnion_fields[OF d] have "stopped c2 = 1" by simp
  then show ?thesis
    using True d
    by (auto simp: Stop_def Let_def Close_def split: option.splits prod.splits)
qed

lemma Stop_DelOnion_failed:
  assumes "stopped c = 0" "DelOnion (c\<lparr>stopped := 1\<rparr>) (activeServiceID c) = (Some err, c2)"
  shows "Stop c = (Some err, c2)"
  using assms by (simp add: Stop_def Let_def)

lemma Stop_failed_keeps:
  assumes "stopped c = 0" "conn c = Some cn"
    and "fst (DelOnion (c\<lparr>stopped := 1\<rparr>) (activeServiceID c)) \<noteq> None"
  shows "Stop c = DelOnion (c\<lparr>stopped := 1\<rparr>) (activeServiceID c) \<and>
     activeServiceID (snd (Stop c)) = activeServiceID c \<and>
     map_option isClosed (conn (snd (Stop c))) = Some (isClosed cn)"
proof -
  from assms(3) obtain err c2 where
    d: "DelOnion (c\<lparr>stopped := 1\<rparr>) (activeServiceID c) = (Some err, c2)"
    by (cases "DelOnion (c\<lparr>stopped := 1\<rparr>) (activeServiceID c)") auto
  from Stop_DelOnion_failed[OF assms(1) d] DelOnion_fields[OF d] assms(2) d
  show ?thesis by simp
qed

lemma Start_started: "started c \<noteq> 0 \<Longrightarrow> Start env c = (None, c)"
  by (simp add: Start_def)

lemma Start_sets_flag:
  assumes "started c = 0"
  shows "started (snd (Start env c)) = 1 \<and> stopped (snd (Start env c)) = stopped c"
proof (cases "dial env (controlAddr c)")
  case (Inl err)
  then show ?thesis using assms by (simp add: Start_def Let_def)
next
  case (Inr cn)
  obtain e c2 where a: "authenticate env (c\<lparr>started := 1, conn := Some cn\<rparr>) = (e, c2)"
    by (metis prod.exhaust)
  from authenticate_fields[OF a] show ?thesis
    using assms Inr a by (simp add: Start_def Let_def)
qed

lemma Reconnect_ok:
  assumes "fst (Reconnect env c) = None"
  shows "started c = 1 \<and> stopped c = 0 \<and> started (snd (Reconnect env c)) = 1 \<and>
         stopped (snd (Reconnect env c)) = 0 \<and> activeServiceID (snd (Reconnect env c)) = []"
proof -
  from assms have f: "started c = 1" "stopped c = 0"
    by (auto simp: Reconnect_def split: if_splits)
  define c1 where "c1 = (case conn c of None \<Rightarrow> c | Some cn \<Rightarrow> c\<lparr>conn := Some (snd (Close cn))\<rparr>)"
  have c1: "started c1 = 1" "stopped c1 = 0" "controlAddr c1 = controlAddr c"
    using f by (auto simp: c1_def split: option.splits)
  from assms f obtain cn where d: "dial env (controlAddr c1) = Inr cn"
    by (cases "dial env (controlAddr c1)") (auto simp: Reconnect_def Let_def c1_def)
  obtain e c2 where a: "authenticate env (c1\<lparr>conn := Some cn\<rparr>) = (e, c2)"
    by (metis prod.exhaust)
  from assms f d a have "e = None"
    by (cases e) (auto simp: Reconnect_def Let_def c1_def)
  with f d a have r: "Reconnect env c = (None, c2\<lparr>activeServiceID := []\<rparr>)"
    by (simp add: Reconnect_def Let_def c1_def)
  from authenticate_fields[OF a] c1 have "started c2 = 1" "stopped c2 = 0" by simp_all
  with f r show ?thesis by simp
qed

lemma Stop_running:
  assumes "stopped c = 0" "conn c = Some cn"
  shows "stopped (snd (Stop c)) = 1 \<and> started (snd (Stop c)) = started c \<and>
     (\<not> isClosed cn \<and> writeError cn = None \<longrightarrow>
        (\<exists>cn'. conn (snd (Stop c)) = Some cn' \<and>
           written cn' = written cn @ [''DEL_ONION '' @ activeServiceID c])) \<and>
     (fst (DelOnion (c\<lparr>stopped := 1\<rparr>) (activeServiceID c)) = None \<longrightarrow>
        activeServiceID (snd (Stop c)) = [] \<and>
        map_option isClosed (conn (snd (Stop c))) = Some True)"
proof -
  let ?c1 = "c\<lparr>stopped := 1\<rparr>"
  obtain e c2 where d: "DelOnion ?c1 (activeServiceID c) = (e, c2)" by (metis prod.exhaust)
  note df = DelOnion_fields[OF d]
  from df assms(2) obtain cn2 where cn2: "conn c2 = Some cn2" by (cases "conn c2") auto
  have w: "\<exists>cn'. conn c2 = Some cn' \<and> written cn' = written cn @ [''DEL_ONION '' @ activeServiceID c]"
    if "\<not> isClosed cn" "writeError cn = None"
    using DelOnion_written[of ?c1 cn, OF _ that, of "activeServiceID c"] assms(2) d by simp
  show ?thesis
  proof (cases e)
    case (Some err)
    then have "Stop c = (Some err, c2)" using assms(1) d by (simp add: Stop_def Let_def)
    then show ?thesis using df w d Some by auto
  next
    case None
    then have "Stop c = (fst (Close cn2), c2\<lparr>activeServiceID := [], conn := Some (snd (Close cn2))\<rparr>)"
      using assms(1) d cn2 by (simp add: Stop_def Let_def split: prod.splits)
    then show ?thesis using df w d None cn2 by (auto simp: Close_def)
  qed
qed



subsection \<open>Choosing the authentication method\<close>

text \<open>
  C4, as amended. Once \<open>PROTOCOLINFO\<close> has been answered, \<open>authenticate\<close> chooses as
  follows. With a password configured it uses password authentication when
  \<open>HASHEDPASSWORD\<close> is advertised and otherwise fails, without trying another method.
  Without a password it runs the SAFECOOKIE handshake when \<open>SAFECOOKIE\<close> is advertised,
  else sends a bare \<open>AUTHENTICATE\<close> when \<open>NULL\<close> is advertised, else fails because no
  supported method is offered.
\<close>

theorem authenticate_selects:
  assumes "protocolInfo c = (Inr info, c1)"
  shows "authenticate env c =
     (let c2 = c1\<lparr>version := protocolInfo_version info\<rparr>
      in if password c \<noteq> [] \<and> supportsAuthMethod info ''HASHEDPASSWORD''
         then (case sendCommand c2 (''AUTHENTICATE '' @ [DQUOTE] @ password c @ [DQUOTE]) of
                 ((code, reply, err), c3) \<Rightarrow> (err, c3))
         else if password c \<noteq> []
         then (Some (ErrorNew ''HASHEDPASSWORD authentication method not supported''), c2)
         else if supportsAuthMethod info ''SAFECOOKIE''
         then authenticateViaSafeCookie env c2 info
         else if supportsAuthMethod info ''NULL''
         then (case sendCommand c2 ''AUTHENTICATE'' of ((code, reply, err), c3) \<Rightarrow> (err, c3))
         else (Some (ErrorNew
                 ''the Tor server must be configured with NULL, SAFECOOKIE, or HASHEDPASSWORD authentication''),
               c2))"
proof -
  have pw: "password c1 = password c" using protocolInfo_fields[OF assms] by simp
  show ?thesis
    unfolding authenticate_def assms
    by (simp add: Let_def pw authenticateViaHashedPassword_def authenticateViaNull_def
        authHashedPassword_def authSafeCookie_def authNull_def)
qed



lemma example_protocolInfo_null:
  "protocolInfo (exampleRunning [] [] [exampleProtocolInfoReply ''NULL'', ''250 OK'' @ [CR, LF]])
   = (Inr [''METHODS'' \<mapsto> ''NULL'', ''COOKIEFILE'' \<mapsto> ''/run/tor/control.authcookie'',
        ''Tor'' \<mapsto> ''0.4.7.13''],
      (exampleRunning [] [] [''250 OK'' @ [CR, LF]])
        \<lparr>conn := Some ((exampleConn [''250 OK'' @ [CR, LF]])\<lparr>written := [''PROTOCOLINFO 1'']\<rparr>)\<rparr>)"
  by (simp add: eval_ctl)

theorem authenticate_selects_witness:
  "protocolInfo (exampleRunning [] [] [exampleProtocolInfoReply ''NULL'', ''250 OK'' @ [CR, LF]])
   = (Inr [''METHODS'' \<mapsto> ''NULL'', ''COOKIEFILE'' \<mapsto> ''/run/tor/control.authcookie'',
        ''Tor'' \<mapsto> ''0.4.7.13''],
      (exampleRunning [] [] [''250 OK'' @ [CR, LF]])
        \<lparr>conn := Some ((exampleConn [''250 OK'' @ [CR, LF]])\<lparr>written := [''PROTOCOLINFO 1'']\<rparr>)\<rparr>) \<and>
   authenticate (exampleEnv (exampleConn []))
     (exampleRunning [] [] [exampleProtocolInfoReply ''NULL'', ''250 OK'' @ [CR, LF]])
   = (None, (exampleRunning [] [] [])
        \<lparr>conn := Some ((exampleConn [])\<lparr>written := [''PROTOCOLINFO 1'', ''AUTHENTICATE'']\<rparr>),
         version := ''0.4.7.13''\<rparr>)"
  using authenticate_selects[OF example_protocolInfo_null, of "exampleEnv (exampleConn [])"]
    example_protocolInfo_null
  by (simp add: eval_ctl)

text \<open>
  C4 as stated fails: with a password configured and a server that advertises
  \<open>SAFECOOKIE\<close> but not \<open>HASHEDPASSWORD\<close>, \<open>authenticate\<close> returns an error after
  \<open>PROTOCOLINFO\<close>; no \<open>AUTHCHALLENGE\<close> is sent.
\<close>

theorem authenticate_password_counterexample:
  "password (exampleRunning ''hunter2'' [] [exampleProtocolInfoReply ''COOKIE,SAFECOOKIE'']) \<noteq> [] \<and>
   protocolInfo (exampleRunning ''hunter2'' [] [exampleProtocolInfoReply ''COOKIE,SAFECOOKIE''])
   = (Inr [''METHODS'' \<mapsto> ''COOKIE,SAFECOOKIE'',
           ''COOKIEFILE'' \<mapsto> ''/run/tor/control.authcookie'', ''Tor'' \<mapsto> ''0.4.7.13''],
      (exampleRunning ''hunter2'' [] [])
        \<lparr>conn := Some ((exampleConn [])\<lparr>written := [''PROTOCOLINFO 1'']\<rparr>)\<rparr>) \<and>
   supportsAuthMethod [''METHODS'' \<mapsto> ''COOKIE,SAFECOOKIE'',
           ''COOKIEFILE'' \<mapsto> ''/run/tor/control.authcookie'', ''Tor'' \<mapsto> ''0.4.7.13'']
     ''SAFECOOKIE'' \<and>
   \<not> supportsAuthMethod [''METHODS'' \<mapsto> ''COOKIE,SAFECOOKIE'',
           ''COOKIEFILE'' \<mapsto> ''/run/tor/control.authcookie'', ''Tor'' \<mapsto> ''0.4.7.13'']
     ''HASHEDPASSWORD'' \<and>
   authenticate (exampleEnv (exampleConn []))
     (exampleRunning ''hunter2'' [] [exampleProtocolInfoReply ''COOKIE,SAFECOOKIE''])
   = (Some (ErrorNew ''HASHEDPASSWORD authentication method not supported''),
      (exampleRunning ''hunter2'' [] [])
        \<lparr>conn := Some ((exampleConn [])\<lparr>written := [''PROTOCOLINFO 1'']\<rparr>),
         version := ''0.4.7.13''\<rparr>)"
  by (simp add: eval_ctl)

subsection \<open>The SAFECOOKIE handshake\<close>

text \<open>
  C2. Whenever \<open>authenticateViaSafeCookie\<close> succeeds, the cookie file named by
  \<open>COOKIEFILE\<close> held exactly 32 bytes; the reply to \<open>AUTHCHALLENGE\<close> carried \<open>SERVERHASH\<close>
  and \<open>SERVERNONCE\<close>, each 32 bytes when decoded; the decoded server hash is HMAC-SHA256
  under the server-to-controller key of cookie, client nonce and server nonce; and the
  commands sent are \<open>AUTHCHALLENGE SAFECOOKIE\<close> with the client nonce and then
  \<open>AUTHENTICATE\<close> with the lowercase hexadecimal encoding of HMAC-SHA256 under the
  controller-to-server key of the same message. In every other case it fails.
\<close>

theorem authenticateViaSafeCookie_success:
  assumes "authenticateViaSafeCookie env c info = (None, c')"
  shows "\<exists>cookieFilePath cookie clientNonce code reply c1 serverHash serverNonce
            decodedServerHash decodedServerNonce code2 reply2 cn cn' clientHash.
     info ''COOKIEFILE'' = Some cookieFilePath \<and>
     readFile env (Trim cookieFilePath DQUOTE) = Inr cookie \<and> length cookie = 32 \<and>
     randRead env 32 = Inr clientNonce \<and>
     sendCommand c (''AUTHCHALLENGE SAFECOOKIE '' @ hexEncode clientNonce)
       = ((code, reply, None), c1) \<and>
     parseTorReply reply ''SERVERHASH'' = Some serverHash \<and>
     DecodeString serverHash = Inr decodedServerHash \<and> length decodedServerHash = 32 \<and>
     parseTorReply reply ''SERVERNONCE'' = Some serverNonce \<and>
     DecodeString serverNonce = Inr decodedServerNonce \<and> length decodedServerNonce = 32 \<and>
     decodedServerHash =
       hmacSHA256 env ''Tor safe cookie authentication server-to-controller hash''
         (cookie @ clientNonce @ decodedServerNonce) \<and>
     clientHash =
       hmacSHA256 env ''Tor safe cookie authentication controller-to-server hash''
         (cookie @ clientNonce @ decodedServerNonce) \<and>
     sendCommand c1 (''AUTHENTICATE '' @ hexEncode clientHash) = ((code2, reply2, None), c') \<and>
     conn c = Some cn \<and> conn c' = Some cn' \<and>
     written cn' = written cn @ [''AUTHCHALLENGE SAFECOOKIE '' @ hexEncode clientNonce,
                                 ''AUTHENTICATE '' @ hexEncode clientHash] \<and>
     list_all (\<lambda>x. x \<in> set ''0123456789abcdef'') (hexEncode clientHash) \<and>
     DecodeString (hexEncode clientHash) = Inr clientHash"
proof -
  obtain cookie where cookie: "getAuthCookie env info = Inr cookie"
    using assms by (cases "getAuthCookie env info") (auto simp: authenticateViaSafeCookie_def)
  obtain clientNonce where nonce: "randRead env nonceLen = Inr clientNonce"
    using assms cookie
    by (cases "randRead env nonceLen") (auto simp: authenticateViaSafeCookie_def)
  obtain code reply e1 c1 where sc1:
    "sendCommand c (''AUTHCHALLENGE SAFECOOKIE '' @ hexEncode clientNonce) = ((code, reply, e1), c1)"
    by (metis prod.exhaust)
  have e1: "e1 = None"
    using assms cookie nonce sc1
    by (cases e1) (auto simp: authenticateViaSafeCookie_def)
  note sc1 = sc1[unfolded e1]
  note unf = authenticateViaSafeCookie_def cookie nonce sc1 sum.case prod.case option.case Let_def
  obtain serverHash where sh: "parseTorReply reply ''SERVERHASH'' = Some serverHash"
    using assms unfolding unf by (cases "parseTorReply reply ''SERVERHASH''") auto
  note unf = unf sh
  obtain decodedServerHash where dsh: "DecodeString serverHash = Inr decodedServerHash"
    using assms unfolding unf by (cases "DecodeString serverHash") auto
  note unf = unf dsh
  have lsh: "length decodedServerHash = sha256_Size"
    using assms unfolding unf by (auto split: if_splits)
  note unf = unf lsh
  obtain serverNonce where sn: "parseTorReply reply ''SERVERNONCE'' = Some serverNonce"
    using assms unfolding unf by (cases "parseTorReply reply ''SERVERNONCE''") auto
  note unf = unf sn
  obtain decodedServerNonce where dsn: "DecodeString serverNonce = Inr decodedServerNonce"
    using assms unfolding unf by (cases "DecodeString serverNonce") auto
  note unf = unf dsn
  have lsn: "length decodedServerNonce = nonceLen"
    using assms unfolding unf by (auto split: if_splits)
  note unf = unf lsn
  let ?msg = "cookie @ clientNonce @ decodedServerNonce"
  have mac: "decodedServerHash = computeHMAC256 env serverKey ?msg"
    using assms unfolding unf by (auto split: if_splits)
  have lch: "length (computeHMAC256 env controllerKey ?msg) = sha256_Size"
    using assms unfolding unf by (auto split: if_splits)
  obtain code2 reply2 e2 c2 where sc2:
    "sendCommand c1 (''AUTHENTICATE '' @ hexEncode (computeHMAC256 env controllerKey ?msg))
       = ((code2, reply2, e2), c2)"
    by (metis prod.exhaust)
  have fin: "e2 = None \<and> c2 = c'"
    using assms mac[symmetric] lch sc2 unfolding unf
    by (cases e2) (auto split: if_splits)
  from getAuthCookie_ok[OF cookie] obtain cookieFilePath where
    cf: "info ''COOKIEFILE'' = Some cookieFilePath"
      "readFile env (Trim cookieFilePath DQUOTE) = Inr cookie" "length cookie = 32"
    by blast
  from sendCommand_ok_written[OF sc1] obtain cn cn1 where
    w1: "conn c = Some cn" "conn c1 = Some cn1"
      "written cn1 = written cn @ [''AUTHCHALLENGE SAFECOOKIE '' @ hexEncode clientNonce]"
    by blast
  from fin sc2 have sc2': "sendCommand c1 (''AUTHENTICATE '' @
      hexEncode (computeHMAC256 env controllerKey ?msg)) = ((code2, reply2, None), c')" by simp
  from sendCommand_ok_written[OF sc2'] w1(2) obtain cn' where
    w2: "conn c' = Some cn'"
      "written cn' = written cn1 @ [''AUTHENTICATE '' @
         hexEncode (computeHMAC256 env controllerKey ?msg)]"
    by auto
  have w: "written cn' = written cn @ [''AUTHCHALLENGE SAFECOOKIE '' @ hexEncode clientNonce,
      ''AUTHENTICATE '' @ hexEncode (computeHMAC256 env controllerKey ?msg)]"
    using w1(3) w2(2) by simp
  note hx = hexEncode_lowercase[of "computeHMAC256 env controllerKey ?msg"]
    hexEncode_DecodeString[of "computeHMAC256 env controllerKey ?msg"]
  show ?thesis
    using cf nonce sc1 sh dsh lsh sn dsn lsn mac sc2' w1(1) w2(1) w hx
    unfolding computeHMAC256_def serverKey_def controllerKey_def nonceLen_def sha256_Size_def
    by blast
qed

lemma example_safecookie:
  "authenticateViaSafeCookie (exampleEnv (exampleConn []))
     (exampleRunning [] [] [exampleChallengeReply, ''250 OK'' @ [CR, LF]])
     [''COOKIEFILE'' \<mapsto> ''/run/tor/control.authcookie'']
   = (None, (exampleRunning [] [] [])
        \<lparr>conn := Some ((exampleConn [])
           \<lparr>written := [''AUTHCHALLENGE SAFECOOKIE '' @ hexEncode ''client-nonce-client-nonce-client'',
                        ''AUTHENTICATE '' @ hexEncode (exampleMAC controllerKey
                           (''0123456789abcdefghijklmnopqrstuv'' @ ''client-nonce-client-nonce-client'' @ ''server-nonce-server-nonce-server''))]\<rparr>)\<rparr>)"
  by (simp add: authenticateViaSafeCookie_def getAuthCookie_def eval_ctl exampleChallengeReply_def
      exampleMAC_def serverKey_def controllerKey_def computeHMAC256_def hexDigit_def
      fromHexChar_def char_of_eq_iff eq_char_of_iff nonceLen_def cookieLen_def sha256_Size_def)


theorem authenticateViaSafeCookie_success_witness:
  "authenticateViaSafeCookie (exampleEnv (exampleConn []))
     (exampleRunning [] [] [exampleChallengeReply, ''250 OK'' @ [CR, LF]])
     [''COOKIEFILE'' \<mapsto> ''/run/tor/control.authcookie'']
   = (None, (exampleRunning [] [] [])
        \<lparr>conn := Some ((exampleConn [])
           \<lparr>written := [''AUTHCHALLENGE SAFECOOKIE '' @ hexEncode ''client-nonce-client-nonce-client'',
                        ''AUTHENTICATE '' @ hexEncode (exampleMAC controllerKey
                           (''0123456789abcdefghijklmnopqrstuv'' @ ''client-nonce-client-nonce-client'' @
                            ''server-nonce-server-nonce-server''))]\<rparr>)\<rparr>) \<and>
   (\<exists>cookie clientNonce reply code c1 serverHash decodedServerHash serverNonce decodedServerNonce.
      readFile (exampleEnv (exampleConn [])) ''/run/tor/control.authcookie'' = Inr cookie \<and>
      length cookie = 32 \<and>
      randRead (exampleEnv (exampleConn [])) 32 = Inr clientNonce \<and>
      sendCommand (exampleRunning [] [] [exampleChallengeReply, ''250 OK'' @ [CR, LF]])
          (''AUTHCHALLENGE SAFECOOKIE '' @ hexEncode clientNonce) = ((code, reply, None), c1) \<and>
      parseTorReply reply ''SERVERHASH'' = Some serverHash \<and>
      DecodeString serverHash = Inr decodedServerHash \<and>
      parseTorReply reply ''SERVERNONCE'' = Some serverNonce \<and>
      DecodeString serverNonce = Inr decodedServerNonce \<and> length decodedServerNonce = 32 \<and>
      decodedServerHash = exampleMAC ''Tor safe cookie authentication server-to-controller hash''
         (cookie @ clientNonce @ decodedServerNonce))"
proof -
  from authenticateViaSafeCookie_success[OF example_safecookie]
  obtain cookieFilePath cookie clientNonce code reply c1 serverHash serverNonce
      decodedServerHash decodedServerNonce where
    h: "[''COOKIEFILE'' \<mapsto> ''/run/tor/control.authcookie''] ''COOKIEFILE'' = Some cookieFilePath"
      "readFile (exampleEnv (exampleConn [])) (Trim cookieFilePath DQUOTE) = Inr cookie"
      "length cookie = 32"
      "randRead (exampleEnv (exampleConn [])) 32 = Inr clientNonce"
      "sendCommand (exampleRunning [] [] [exampleChallengeReply, ''250 OK'' @ [CR, LF]])
          (''AUTHCHALLENGE SAFECOOKIE '' @ hexEncode clientNonce) = ((code, reply, None), c1)"
      "parseTorReply reply ''SERVERHASH'' = Some serverHash"
      "DecodeString serverHash = Inr decodedServerHash"
      "parseTorReply reply ''SERVERNONCE'' = Some serverNonce"
      "DecodeString serverNonce = Inr decodedServerNonce" "length decodedServerNonce = 32"
      "decodedServerHash = hmacSHA256 (exampleEnv (exampleConn []))
         ''Tor safe cookie authentication server-to-controller hash''
         (cookie @ clientNonce @ decodedServerNonce)"
    by blast
  from h(1) have p: "cookieFilePath = ''/run/tor/control.authcookie''" by simp
  have t: "Trim ''/run/tor/control.authcookie'' DQUOTE = ''/run/tor/control.authcookie''"
    by (simp add: Trim_def)
  have m: "hmacSHA256 (exampleEnv (exampleConn [])) = exampleMAC" by (simp add: exampleEnv_def)
  from h(2) p t have f: "readFile (exampleEnv (exampleConn [])) ''/run/tor/control.authcookie''
      = Inr cookie" by simp
  show ?thesis
    using example_safecookie f h(3-10) h(11)[unfolded m] by blast
qed

subsection \<open>The lifecycle\<close>

text \<open>
  C10. \<open>Stop\<close> sets the stopped flag before any teardown: after one call of \<open>Stop\<close> the
  flag is set, and every later call returns nil and changes nothing. This holds also
  when the first call returned the error of \<open>DelOnion\<close>: then the active service ID is
  still the old one and the connection is as open or closed as it was, and the failed
  \<open>Stop\<close> is not tried again.
\<close>

theorem Stop_never_retried:
  "stopped (snd (Stop c)) \<noteq> 0 \<and> Stop (snd (Stop c)) = (None, snd (Stop c)) \<and>
   (stopped c = 0 \<and> fst (DelOnion (c\<lparr>stopped := 1\<rparr>) (activeServiceID c)) = Some err \<longrightarrow>
      fst (Stop c) = Some err \<and>
      activeServiceID (snd (Stop c)) = activeServiceID c \<and>
      map_option isClosed (conn (snd (Stop c))) = map_option isClosed (conn c))"
proof -
  have a: "stopped (snd (Stop c)) \<noteq> 0" by (rule Stop_sets_flag)
  have b: "Stop (snd (Stop c)) = (None, snd (Stop c))" using a by (rule Stop_stopped)
  have c: "fst (Stop c) = Some err \<and>
      activeServiceID (snd (Stop c)) = activeServiceID c \<and>
      map_option isClosed (conn (snd (Stop c))) = map_option isClosed (conn c)"
    if h: "stopped c = 0" "fst (DelOnion (c\<lparr>stopped := 1\<rparr>) (activeServiceID c)) = Some err"
  proof -
    obtain c2 where d: "DelOnion (c\<lparr>stopped := 1\<rparr>) (activeServiceID c) = (Some err, c2)"
      using h(2) by (cases "DelOnion (c\<lparr>stopped := 1\<rparr>) (activeServiceID c)") auto
    from Stop_DelOnion_failed[OF h(1) d] DelOnion_fields[OF d] show ?thesis by simp
  qed
  from a b c show ?thesis by blast
qed


theorem Stop_never_retried_witness:
  "stopped (exampleRunning [] ''abcdefghijklmnop'' []) = 0 \<and>
   fst (DelOnion ((exampleRunning [] ''abcdefghijklmnop'' [])\<lparr>stopped := 1\<rparr>)
          (activeServiceID (exampleRunning [] ''abcdefghijklmnop'' []))) = Some ErrEOF \<and>
   fst (Stop (exampleRunning [] ''abcdefghijklmnop'' [])) = Some ErrEOF \<and>
   activeServiceID (snd (Stop (exampleRunning [] ''abcdefghijklmnop'' []))) = ''abcdefghijklmnop'' \<and>
   map_option isClosed (conn (snd (Stop (exampleRunning [] ''abcdefghijklmnop'' [])))) = Some False \<and>
   stopped (snd (Stop (exampleRunning [] ''abcdefghijklmnop'' []))) \<noteq> 0 \<and>
   Stop (snd (Stop (exampleRunning [] ''abcdefghijklmnop'' [])))
     = (None, snd (Stop (exampleRunning [] ''abcdefghijklmnop'' [])))"
proof -
  have a: "stopped (exampleRunning [] ''abcdefghijklmnop'' []) = 0"
    by (simp add: exampleRunning_def NewController_def)
  have b: "fst (DelOnion ((exampleRunning [] ''abcdefghijklmnop'' [])\<lparr>stopped := 1\<rparr>)
          (activeServiceID (exampleRunning [] ''abcdefghijklmnop'' []))) = Some ErrEOF"
    by (simp add: eval_ctl)
  have c: "activeServiceID (exampleRunning [] ''abcdefghijklmnop'' []) = ''abcdefghijklmnop''"
    "map_option isClosed (conn (exampleRunning [] ''abcdefghijklmnop'' [])) = Some False"
    by (simp_all add: exampleRunning_def NewController_def exampleConn_def)
  from Stop_never_retried[of "exampleRunning [] ''abcdefghijklmnop'' []" ErrEOF] a b c
  show ?thesis by simp
qed

text \<open>
  C5, as amended. \<open>Start\<close> on a controller that was never started sets the started flag,
  whether or not connecting and authenticating succeed; \<open>Start\<close> on a started controller
  returns nil and changes nothing. \<open>Stop\<close> on a stopped controller returns nil and changes
  nothing. \<open>Stop\<close> on a controller that has a connection and is not stopped sets the
  stopped flag, hands \<open>DEL_ONION\<close> with the recorded service ID to the connection whether
  or not a service is active; when \<open>DelOnion\<close> succeeds it clears the service ID and
  closes the connection, and when \<open>DelOnion\<close> fails it does neither: it returns what
  \<open>DelOnion\<close> returned, the error and the controller, with the service ID still
  recorded and the connection as open or closed as it was. \<open>Reconnect\<close> fails with \<open>errTCNotStarted\<close> unless the started
  flag is set, with \<open>errTCStopped\<close> when both flags are set, and succeeds only on a
  controller that is started and not stopped, which it leaves so, with no service ID.
\<close>

theorem Controller_lifecycle:
  "(started c = 0 \<longrightarrow> started (snd (Start env c)) = 1 \<and> stopped (snd (Start env c)) = stopped c) \<and>
   (started c \<noteq> 0 \<longrightarrow> Start env c = (None, c)) \<and>
   (stopped c \<noteq> 0 \<longrightarrow> Stop c = (None, c)) \<and>
   (stopped c = 0 \<and> conn c = Some cn \<longrightarrow>
      stopped (snd (Stop c)) = 1 \<and> started (snd (Stop c)) = started c \<and>
      (\<not> isClosed cn \<and> writeError cn = None \<longrightarrow>
         (\<exists>cn'. conn (snd (Stop c)) = Some cn' \<and>
            written cn' = written cn @ [''DEL_ONION '' @ activeServiceID c])) \<and>
      (fst (DelOnion (c\<lparr>stopped := 1\<rparr>) (activeServiceID c)) = None \<longrightarrow>
         activeServiceID (snd (Stop c)) = [] \<and>
         map_option isClosed (conn (snd (Stop c))) = Some True) \<and>
      (fst (DelOnion (c\<lparr>stopped := 1\<rparr>) (activeServiceID c)) \<noteq> None \<longrightarrow>
         Stop c = DelOnion (c\<lparr>stopped := 1\<rparr>) (activeServiceID c) \<and>
         activeServiceID (snd (Stop c)) = activeServiceID c \<and>
         map_option isClosed (conn (snd (Stop c))) = Some (isClosed cn))) \<and>
   (started c \<noteq> 1 \<longrightarrow> Reconnect env c = (Some errTCNotStarted, c)) \<and>
   (started c = 1 \<and> stopped c \<noteq> 0 \<longrightarrow> Reconnect env c = (Some errTCStopped, c)) \<and>
   (fst (Reconnect env c) = None \<longrightarrow>
      started c = 1 \<and> stopped c = 0 \<and> started (snd (Reconnect env c)) = 1 \<and>
      stopped (snd (Reconnect env c)) = 0 \<and> activeServiceID (snd (Reconnect env c)) = [])"
proof (intro conjI impI)
  show "Reconnect env c = (Some errTCNotStarted, c)" if "started c \<noteq> 1"
    using that by (simp add: Reconnect_def)
  show "Reconnect env c = (Some errTCStopped, c)" if "started c = 1 \<and> stopped c \<noteq> 0"
    using that by (simp add: Reconnect_def)
qed (use Start_sets_flag Start_started Stop_stopped Stop_running Stop_failed_keeps Reconnect_ok
    in \<open>blast+\<close>)


lemma example_Reconnect:
  "Reconnect (exampleEnv (exampleConn [exampleProtocolInfoReply ''NULL'', ''250 OK'' @ [CR, LF]]))
     (exampleRunning [] ''abcdefghijklmnop'' [])
   = (None, (exampleRunning [] [] [])
        \<lparr>conn := Some ((exampleConn [])\<lparr>written := [''PROTOCOLINFO 1'', ''AUTHENTICATE'']\<rparr>),
         version := ''0.4.7.13''\<rparr>)"
  by (simp add: eval_ctl)

lemma example_Stop_ok:
  "Stop (exampleRunning [] ''abcdefghijklmnop'' [''250 OK'' @ [CR, LF]])
   = (None, (exampleRunning [] [] [])
        \<lparr>stopped := 1,
         conn := Some ((exampleConn [])
           \<lparr>written := [''DEL_ONION abcdefghijklmnop''], isClosed := True\<rparr>)\<rparr>)"
  by (simp add: eval_ctl)

theorem Controller_lifecycle_witness:
  "started (NewController ''127.0.0.1:9051'' ''127.0.0.1'' []) = 0 \<and>
   started (snd (Start (exampleEnv (exampleConn [exampleProtocolInfoReply ''NULL'', ''250 OK'' @ [CR, LF]]))
                  (NewController ''127.0.0.1:9051'' ''127.0.0.1'' []))) = 1 \<and>
   Reconnect (exampleEnv (exampleConn [])) (NewController ''127.0.0.1:9051'' ''127.0.0.1'' [])
     = (Some errTCNotStarted, NewController ''127.0.0.1:9051'' ''127.0.0.1'' []) \<and>
   started (exampleRunning [] ''abcdefghijklmnop'' [''250 OK'' @ [CR, LF]]) = 1 \<and>
   stopped (exampleRunning [] ''abcdefghijklmnop'' [''250 OK'' @ [CR, LF]]) = 0 \<and>
   Start (exampleEnv (exampleConn [])) (exampleRunning [] ''abcdefghijklmnop'' [''250 OK'' @ [CR, LF]])
     = (None, exampleRunning [] ''abcdefghijklmnop'' [''250 OK'' @ [CR, LF]]) \<and>
   conn (exampleRunning [] ''abcdefghijklmnop'' [''250 OK'' @ [CR, LF]])
     = Some (exampleConn [''250 OK'' @ [CR, LF]]) \<and>
   fst (DelOnion ((exampleRunning [] ''abcdefghijklmnop'' [''250 OK'' @ [CR, LF]])\<lparr>stopped := 1\<rparr>)
          (activeServiceID (exampleRunning [] ''abcdefghijklmnop'' [''250 OK'' @ [CR, LF]]))) = None \<and>
   stopped (snd (Stop (exampleRunning [] ''abcdefghijklmnop'' [''250 OK'' @ [CR, LF]]))) = 1 \<and>
   activeServiceID (snd (Stop (exampleRunning [] ''abcdefghijklmnop'' [''250 OK'' @ [CR, LF]]))) = [] \<and>
   map_option isClosed (conn (snd (Stop (exampleRunning [] ''abcdefghijklmnop'' [''250 OK'' @ [CR, LF]]))))
     = Some True \<and>
   stopped (snd (Stop (exampleRunning [] ''abcdefghijklmnop'' [''250 OK'' @ [CR, LF]]))) \<noteq> 0 \<and>
   Stop (snd (Stop (exampleRunning [] ''abcdefghijklmnop'' [''250 OK'' @ [CR, LF]])))
     = (None, snd (Stop (exampleRunning [] ''abcdefghijklmnop'' [''250 OK'' @ [CR, LF]]))) \<and>
   Reconnect (exampleEnv (exampleConn []))
       (snd (Stop (exampleRunning [] ''abcdefghijklmnop'' [''250 OK'' @ [CR, LF]])))
     = (Some errTCStopped, snd (Stop (exampleRunning [] ''abcdefghijklmnop'' [''250 OK'' @ [CR, LF]]))) \<and>
   fst (Reconnect (exampleEnv (exampleConn [exampleProtocolInfoReply ''NULL'', ''250 OK'' @ [CR, LF]]))
          (exampleRunning [] ''abcdefghijklmnop'' [])) = None \<and>
   activeServiceID (snd (Reconnect
          (exampleEnv (exampleConn [exampleProtocolInfoReply ''NULL'', ''250 OK'' @ [CR, LF]]))
          (exampleRunning [] ''abcdefghijklmnop'' []))) = [] \<and>
   stopped (exampleRunning [] ''abcdefghijklmnop'' []) = 0 \<and>
   conn (exampleRunning [] ''abcdefghijklmnop'' []) = Some (exampleConn []) \<and>
   fst (DelOnion ((exampleRunning [] ''abcdefghijklmnop'' [])\<lparr>stopped := 1\<rparr>)
          (activeServiceID (exampleRunning [] ''abcdefghijklmnop'' []))) = Some ErrEOF \<and>
   fst (Stop (exampleRunning [] ''abcdefghijklmnop'' [])) = Some ErrEOF \<and>
   activeServiceID (snd (Stop (exampleRunning [] ''abcdefghijklmnop'' []))) = ''abcdefghijklmnop'' \<and>
   map_option isClosed (conn (snd (Stop (exampleRunning [] ''abcdefghijklmnop'' [])))) = Some False"
proof -
  let ?down = "exampleRunning [] ''abcdefghijklmnop'' []"
  let ?fresh = "NewController ''127.0.0.1:9051'' ''127.0.0.1'' []"
  let ?run = "exampleRunning [] ''abcdefghijklmnop'' [''250 OK'' @ [CR, LF]]"
  let ?env = "exampleEnv (exampleConn [exampleProtocolInfoReply ''NULL'', ''250 OK'' @ [CR, LF]])"
  let ?none = "exampleEnv (exampleConn [])"
  have f: "started ?fresh = 0" "started ?fresh \<noteq> 1" by (simp_all add: NewController_def)
  have r: "started ?run = 1" "started ?run \<noteq> 0" "stopped ?run = 0"
      "conn ?run = Some (exampleConn [''250 OK'' @ [CR, LF]])"
    by (simp_all add: exampleRunning_def NewController_def)
  have d: "fst (DelOnion (?run\<lparr>stopped := 1\<rparr>) (activeServiceID ?run)) = None"
    by (simp add: eval_ctl)
  have s: "stopped (snd (Stop ?run)) \<noteq> 0" "started (snd (Stop ?run)) = 1"
    by (simp_all only: example_Stop_ok) (simp_all add: exampleRunning_def NewController_def)
  have k: "fst (Reconnect ?env (exampleRunning [] ''abcdefghijklmnop'' [])) = None"
    by (simp only: example_Reconnect fst_conv)
  from Controller_lifecycle[of ?fresh ?env] f
  have 1: "started (snd (Start ?env ?fresh)) = 1" by blast
  from Controller_lifecycle[of ?fresh ?none] f
  have 2: "Reconnect ?none ?fresh = (Some errTCNotStarted, ?fresh)" by blast
  from Controller_lifecycle[of ?run ?none "exampleConn [''250 OK'' @ [CR, LF]]"] r d
  have 3: "Start ?none ?run = (None, ?run)" "stopped (snd (Stop ?run)) = 1"
    "activeServiceID (snd (Stop ?run)) = []"
    "map_option isClosed (conn (snd (Stop ?run))) = Some True" by blast+
  from Controller_lifecycle[of "snd (Stop ?run)" ?none] s
  have 4: "Stop (snd (Stop ?run)) = (None, snd (Stop ?run))"
    "Reconnect ?none (snd (Stop ?run)) = (Some errTCStopped, snd (Stop ?run))" by blast+
  from Controller_lifecycle[of "exampleRunning [] ''abcdefghijklmnop'' []" ?env] k
  have 5: "activeServiceID (snd (Reconnect ?env (exampleRunning [] ''abcdefghijklmnop'' []))) = []"
    by blast
  have g: "stopped ?down = 0" "conn ?down = Some (exampleConn [])"
      "activeServiceID ?down = ''abcdefghijklmnop''" "isClosed (exampleConn []) = False"
    by (simp_all add: exampleRunning_def NewController_def exampleConn_def)
  have e: "fst (DelOnion (?down\<lparr>stopped := 1\<rparr>) (activeServiceID ?down)) = Some ErrEOF"
    by (simp add: eval_ctl)
  then have e': "fst (DelOnion (?down\<lparr>stopped := 1\<rparr>) (activeServiceID ?down)) \<noteq> None"
    by simp
  from Controller_lifecycle[of ?down ?none "exampleConn []"] g(1,2) e'
  have 6: "Stop ?down = DelOnion (?down\<lparr>stopped := 1\<rparr>) (activeServiceID ?down)"
    "activeServiceID (snd (Stop ?down)) = activeServiceID ?down"
    "map_option isClosed (conn (snd (Stop ?down))) = Some (isClosed (exampleConn []))" by blast+
  have 7: "fst (Stop ?down) = Some ErrEOF"
    "activeServiceID (snd (Stop ?down)) = ''abcdefghijklmnop''"
    "map_option isClosed (conn (snd (Stop ?down))) = Some False"
    using 6 e g(3,4) by simp_all
  show ?thesis
    using f(1) r(1,3,4) d s(1) k 1 2 3 4 5 g(1,2) e 7 by blast
qed

text \<open>
  C5 as stated fails in three places. \<open>Stop\<close> on a controller that was never started is
  not a no-op that returns ok: it sets the stopped flag and calls \<open>DelOnion\<close>, which
  reaches \<open>c.conn.Cmd\<close> through the nil connection. \<open>Stop\<close> on a running controller with
  no active service still sends \<open>DEL_ONION\<close>, with an empty service ID. And when
  \<open>DelOnion\<close> fails, here because the daemon has gone away, \<open>Stop\<close> returns the error and
  leaves the connection open.
\<close>

theorem Controller_lifecycle_counterexample:
  "Stop (NewController ''127.0.0.1:9051'' ''127.0.0.1'' [])
   = (Some PanicNilDereference, (NewController ''127.0.0.1:9051'' ''127.0.0.1'' [])\<lparr>stopped := 1\<rparr>) \<and>
   activeServiceID (exampleRunning [] [] [''250 OK'' @ [CR, LF]]) = [] \<and>
   Stop (exampleRunning [] [] [''250 OK'' @ [CR, LF]])
   = (None, (exampleRunning [] [] [])
        \<lparr>stopped := 1,
         conn := Some ((exampleConn [])\<lparr>written := [''DEL_ONION ''], isClosed := True\<rparr>)\<rparr>) \<and>
   Stop (exampleRunning [] ''abcdefghijklmnop'' [])
   = (Some ErrEOF, (exampleRunning [] ''abcdefghijklmnop'' [])
        \<lparr>stopped := 1,
         conn := Some ((exampleConn [])
           \<lparr>written := [''DEL_ONION abcdefghijklmnop''], isClosed := False\<rparr>)\<rparr>)"
  by (simp add: eval_ctl)

subsection \<open>Address lists\<close>

lemma readBe16_be16: "n < 65536 \<Longrightarrow> readBe16 (be16 n @ rest) = n"
proof -
  assume n: "n < 65536"
  then have "n div 256 < 256" by simp
  then have "n div 256 mod 256 = n div 256" by simp
  then show ?thesis by (simp add: readBe16_def be16_def)
qed

lemma be16_length: "length (be16 n) = 2"
  by (simp add: be16_def)

lemma parseAddrs_unknown:
  "spec_unknownType d \<Longrightarrow> parseAddrs (d # rest) = Inr [OpaqueAddrs (d # rest)]"
  by (simp add: spec_unknownType_def)

lemma parseAddrs_known:
  assumes "spec_knownAddr a"
  shows "parseAddrs (encodeAddr a @ rest) = map_sum id ((#) a) (parseAddrs rest)"
  using assms
  by (cases a) (simp_all add: readBe16_be16 be16_length)

lemma parseAddrs_list:
  assumes "list_all spec_knownAddr ks" "spec_unknownType d"
  shows "parseAddrs (concat (map encodeAddr ks) @ d # rest) = Inr (ks @ [OpaqueAddrs (d # rest)])"
  using assms(1)
proof (induction ks)
  case Nil
  then show ?case using assms(2) by (simp add: parseAddrs_unknown del: parseAddrs.simps)
next
  case (Cons a ks)
  then have a: "spec_knownAddr a" and ks: "list_all spec_knownAddr ks" by simp_all
  have "parseAddrs (encodeAddr a @ (concat (map encodeAddr ks) @ d # rest))
      = map_sum id ((#) a) (parseAddrs (concat (map encodeAddr ks) @ d # rest))"
    by (rule parseAddrs_known[OF a])
  then show ?case using Cons.IH[OF ks] by simp
qed


text \<open>
  C7. When the reader of an address list meets a discriminator that is none of the
  known ones, it assigns that byte and all the bytes that remain in the address block to
  one opaque address; an opaque payload is written as it is; so a list of known
  addresses followed by an opaque one is read back as written, and the string form of
  the opaque address is the hexadecimal encoding of its bytes.
\<close>

theorem unknown_address_type_opaque:
  assumes "list_all spec_knownAddr ks" and "spec_unknownType d"
    and "length (concat (map encodeAddr ks)) + length (d # rest) \<le> 65535"
  shows "parseAddrs (d # rest) = Inr [OpaqueAddrs (d # rest)] \<and>
     WriteNetAddrs (ks @ [OpaqueAddrs (d # rest)])
       = Inr (be16 (length (concat (map encodeAddr ks)) + length (d # rest)) @
              concat (map encodeAddr ks) @ d # rest) \<and>
     (\<forall>out. WriteNetAddrs (ks @ [OpaqueAddrs (d # rest)]) = Inr out \<longrightarrow>
        ReadNetAddrs out = Inr (ks @ [OpaqueAddrs (d # rest)])) \<and>
     OpaqueAddrs_String (d # rest) = hexEncode (d # rest)"
proof -
  let ?body = "concat (map encodeAddr ks) @ d # rest"
  have len: "length ?body = length (concat (map encodeAddr ks)) + length (d # rest)" by simp
  have le: "length ?body < 65536" using assms(3) by simp
  have w: "WriteNetAddrs (ks @ [OpaqueAddrs (d # rest)]) = Inr (be16 (length ?body) @ ?body)"
    using le by (simp add: WriteNetAddrs_def Let_def)
  have r: "ReadNetAddrs (be16 (length ?body) @ ?body) = Inr (ks @ [OpaqueAddrs (d # rest)])"
    unfolding ReadNetAddrs_def Let_def
    using readBe16_be16[OF le, of ?body] parseAddrs_list[OF assms(1,2), of rest]
    by (simp add: be16_length del: parseAddrs.simps)
  show ?thesis
    using w r parseAddrs_unknown[OF assms(2), of rest]
    by (simp add: OpaqueAddrs_String_def del: parseAddrs.simps)
qed


lemma base32Decode_example:
  "base32Decode ''abcdefghijklmnop''
   = [CHR 0x00, CHR 0x44, CHR 0x32, CHR 0x14, CHR 0xC7, CHR 0x42, CHR 0x54, CHR 0xB6, CHR 0x35, CHR 0xCF]"
  by (simp add: base32Decode_def base32Alphabet_def bits5_def)

lemma example_WriteNetAddrs:
  "WriteNetAddrs [TCPAddr4 [CHR 0x7F, CHR 0x00, CHR 0x00, CHR 0x01] 8080,
                  OnionAddrV2 (base32Decode ''abcdefghijklmnop'') 9065,
                  OpaqueAddrs [CHR 0xFF, CHR 0x01, CHR 0x02]]
   = Inr [CHR 0x00, CHR 0x17,
          CHR 0x01, CHR 0x7F, CHR 0x00, CHR 0x00, CHR 0x01, CHR 0x1F, CHR 0x90,
          CHR 0x03, CHR 0x00, CHR 0x44, CHR 0x32, CHR 0x14, CHR 0xC7, CHR 0x42, CHR 0x54,
            CHR 0xB6, CHR 0x35, CHR 0xCF, CHR 0x23, CHR 0x69,
          CHR 0xFF, CHR 0x01, CHR 0x02]"
  by (simp add: WriteNetAddrs_def be16_def base32Decode_example char_of_eq_iff)

theorem unknown_address_type_opaque_witness:
  "list_all spec_knownAddr [TCPAddr4 [CHR 0x7F, CHR 0x00, CHR 0x00, CHR 0x01] 8080,
                  OnionAddrV2 (base32Decode ''abcdefghijklmnop'') 9065] \<and>
   spec_unknownType (CHR 0xFF) \<and>
   ReadNetAddrs [CHR 0x00, CHR 0x17,
          CHR 0x01, CHR 0x7F, CHR 0x00, CHR 0x00, CHR 0x01, CHR 0x1F, CHR 0x90,
          CHR 0x03, CHR 0x00, CHR 0x44, CHR 0x32, CHR 0x14, CHR 0xC7, CHR 0x42, CHR 0x54,
            CHR 0xB6, CHR 0x35, CHR 0xCF, CHR 0x23, CHR 0x69,
          CHR 0xFF, CHR 0x01, CHR 0x02]
   = Inr [TCPAddr4 [CHR 0x7F, CHR 0x00, CHR 0x00, CHR 0x01] 8080,
          OnionAddrV2 (base32Decode ''abcdefghijklmnop'') 9065,
          OpaqueAddrs [CHR 0xFF, CHR 0x01, CHR 0x02]] \<and>
   OpaqueAddrs_String [CHR 0xFF, CHR 0x01, CHR 0x02] = ''ff0102''"
proof -
  have k: "list_all spec_knownAddr [TCPAddr4 [CHR 0x7F, CHR 0x00, CHR 0x00, CHR 0x01] 8080,
                  OnionAddrV2 (base32Decode ''abcdefghijklmnop'') 9065]"
    by (simp add: base32Decode_example)
  have u: "spec_unknownType (CHR 0xFF)" by (simp add: spec_unknownType_def)
  have l: "length (concat (map encodeAddr [TCPAddr4 [CHR 0x7F, CHR 0x00, CHR 0x00, CHR 0x01] 8080,
                  OnionAddrV2 (base32Decode ''abcdefghijklmnop'') 9065]))
            + length [CHR 0xFF, CHR 0x01, CHR 0x02] \<le> 65535"
    by (simp add: base32Decode_example be16_def)
  have s: "hexEncode [CHR 0xFF, CHR 0x01, CHR 0x02] = ''ff0102''"
    by (simp add: hexDigit_def)
  from unknown_address_type_opaque[OF k u l] example_WriteNetAddrs k u s show ?thesis
    by simp
qed

text \<open>
  The list of \<open>TestDecodeUnknownAddressType\<close>, whose opaque payload is the single byte
  \<open>0xFF\<close>: written, then read back as three addresses.
\<close>

lemma example_TestDecodeUnknownAddressType:
  "WriteNetAddrs [TCPAddr4 [CHR 0x7F, CHR 0x00, CHR 0x00, CHR 0x01] 8080,
                  OnionAddrV2 (base32Decode ''abcdefghijklmnop'') 9065,
                  OpaqueAddrs [CHR 0xFF]]
   = Inr [CHR 0x00, CHR 0x15,
          CHR 0x01, CHR 0x7F, CHR 0x00, CHR 0x00, CHR 0x01, CHR 0x1F, CHR 0x90,
          CHR 0x03, CHR 0x00, CHR 0x44, CHR 0x32, CHR 0x14, CHR 0xC7, CHR 0x42, CHR 0x54,
            CHR 0xB6, CHR 0x35, CHR 0xCF, CHR 0x23, CHR 0x69,
          CHR 0xFF] \<and>
   ReadNetAddrs [CHR 0x00, CHR 0x15,
          CHR 0x01, CHR 0x7F, CHR 0x00, CHR 0x00, CHR 0x01, CHR 0x1F, CHR 0x90,
          CHR 0x03, CHR 0x00, CHR 0x44, CHR 0x32, CHR 0x14, CHR 0xC7, CHR 0x42, CHR 0x54,
            CHR 0xB6, CHR 0x35, CHR 0xCF, CHR 0x23, CHR 0x69,
          CHR 0xFF]
   = Inr [TCPAddr4 [CHR 0x7F, CHR 0x00, CHR 0x00, CHR 0x01] 8080,
          OnionAddrV2 (base32Decode ''abcdefghijklmnop'') 9065,
          OpaqueAddrs [CHR 0xFF]] \<and>
   OpaqueAddrs_String [CHR 0xFF] = ''ff''"
  by (simp add: WriteNetAddrs_def ReadNetAddrs_def readBe16_def be16_def base32Decode_example
      char_of_eq_iff OpaqueAddrs_String_def hexDigit_def)

end
